theory Spec2Isabelle
  imports Main "HOL-Library.AList" "HOL-Library.Multiset"
begin

unbundle bit_operations_syntax

section \<open>Data model of gen\_enum\_to\_str.py\<close>

text \<open>
  Python exceptions that the modelled code can raise. An uncaught exception ends the
  generator with a traceback and a non-zero exit status.
\<close>

datatype py_error =
  AssertionError | KeyError | TypeError | RecursionError | AttributeError | ValueError

text \<open>
  A Python \<open>dict\<close> is an association list in insertion order: \<open>d[k] = v\<close> is
  \<open>AList.update k v d\<close> (an existing key keeps its position, a new key goes to the
  end), \<open>k in d\<close> is \<open>map_of d k \<noteq> None\<close>, \<open>d[k]\<close> is \<open>map_of d k\<close> with
  \<open>None\<close> read as \<open>KeyError\<close>, and \<open>del d[k]\<close> is \<open>AList.delete k d\<close>.
  Python integers are unbounded: \<open>int\<close>. Strings are \<open>string\<close>; the identifiers of
  the registry are ASCII, so \<open>length\<close> is Python's \<open>len\<close>.
\<close>

record VkExtension =
  name :: string
  number :: "int option"
  "define" :: "string option"

record VkObjectType =
  name :: string
  enum_to_name :: "(int \<times> string) list"

record VkEnum =
  name :: string
  max_enum_name :: string
  bitwidth :: int
  extension :: "VkExtension option"
  "values" :: "(int \<times> string) list"
  name_to_value :: "(string \<times> int) list"
  guard :: "string option"
  name_to_alias_list :: "(string \<times> string list) list"

section \<open>Sentinel names\<close>

text \<open>The character class \<open>[A-Z]\<close> of the regular expressions, and \<open>str.upper\<close> on ASCII.\<close>

definition is_AZ :: "char \<Rightarrow> bool" where
  "is_AZ c = (65 \<le> (of_char c :: nat) \<and> (of_char c :: nat) \<le> 90)"

definition upper_char :: "char \<Rightarrow> char" where
  "upper_char c =
     (if 97 \<le> (of_char c :: nat) \<and> (of_char c :: nat) \<le> 122
      then char_of ((of_char c :: nat) - 32) else c)"

definition upper :: "string \<Rightarrow> string" where
  "upper s = map upper_char s"

text \<open>
  \<open>re.sub(r'(?<![A-Z])([A-Z])', r'_\1', t)\<close>: scanning \<open>t\<close> from the left, a capital
  letter gets an underscore in front of it unless the character before it in \<open>t\<close> is a
  capital letter. The flag \<open>prev\<close> says whether the preceding character of \<open>t\<close> is a
  capital; at the start of \<open>t\<close> there is none, so the lookbehind succeeds.
\<close>

fun sub_capitals :: "bool \<Rightarrow> string \<Rightarrow> string" where
  "sub_capitals prev [] = []"
| "sub_capitals prev (c # cs) =
     (if is_AZ c \<and> \<not> prev then CHR ''_'' # c # sub_capitals (is_AZ c) cs
      else c # sub_capitals (is_AZ c) cs)"

text \<open>\<open>(s[:1] + re.sub(..., s[1:])).upper()\<close>\<close>

definition CamelCase_to_SHOUT_CASE :: "string \<Rightarrow> string" where
  "CamelCase_to_SHOUT_CASE s = upper (take 1 s @ sub_capitals False (drop 1 s))"

text \<open>\<open>str.split(sep)\<close> for a one-character separator, and \<open>sep.join\<close>.\<close>

fun split :: "char \<Rightarrow> string \<Rightarrow> string list" where
  "split sep [] = [[]]"
| "split sep (c # cs) =
     (if c = sep then [] # split sep cs
      else (case split sep cs of w # ws \<Rightarrow> (c # w) # ws | [] \<Rightarrow> [[c]]))"

fun join :: "string \<Rightarrow> string list \<Rightarrow> string" where
  "join sep [] = []"
| "join sep [w] = w"
| "join sep (w # ws) = w @ sep @ join sep ws"

text \<open>\<open>s.rsplit(sep, 1)\<close>: split once, at the last separator.\<close>

definition rsplit1 :: "char \<Rightarrow> string \<Rightarrow> string list" where
  "rsplit1 sep s =
     (if sep \<in> set s then [join [sep] (butlast (split sep s)), last (split sep s)]
      else [s])"

definition vendor_tags :: "string list" where
  "vendor_tags = [''AMD'', ''EXT'', ''INTEL'', ''KHR'', ''NV'', ''LUNARG'']"

definition compute_max_enum_name :: "string \<Rightarrow> string" where
  "compute_max_enum_name s =
     (let max_enum_name = CamelCase_to_SHOUT_CASE s;
          last_prefix = last (rsplit1 (CHR ''_'') max_enum_name)
      in if last_prefix \<in> set vendor_tags
         then join ''_'' (butlast (split (CHR ''_'') max_enum_name)) @ ''_MAX_ENUM_'' @ last_prefix
         else max_enum_name @ ''_MAX_ENUM'')"

section \<open>VkEnum\<close>

text \<open>\<open>VkEnum.__init__(name, bitwidth=32, values=None)\<close>\<close>

definition VkEnum_init :: "string \<Rightarrow> int \<Rightarrow> VkEnum" where
  "VkEnum_init nm bw =
     \<lparr> name = nm, max_enum_name = compute_max_enum_name nm, bitwidth = bw,
       extension = None, values = [], name_to_value = [], guard = None,
       name_to_alias_list = [] \<rparr>"


text \<open>
  Lines 305 to 309 of \<open>add_value\<close>: the value of a constant that is not an alias.
  A missing \<open>offset\<close> makes the addition fail with \<open>TypeError\<close>.
\<close>

definition offset_value :: "int option \<Rightarrow> int option \<Rightarrow> int option \<Rightarrow> bool \<Rightarrow> py_error + int" where
  "offset_value val extnum offset err =
     (case val of
        Some v \<Rightarrow> Inr v
      | None \<Rightarrow>
          (case extnum of
             None \<Rightarrow> Inl AssertionError
           | Some x \<Rightarrow>
               (case offset of
                  None \<Rightarrow> Inl TypeError
                | Some off \<Rightarrow>
                    (let v = 1000000000 + (x - 1) * 1000 + off
                     in Inr (if err then - v else v)))))"

text \<open>Lines 311 to 315 of \<open>add_value\<close>: the two maps take the pair.\<close>

definition set_value :: "VkEnum \<Rightarrow> string \<Rightarrow> int \<Rightarrow> VkEnum" where
  "set_value e nm v =
     e\<lparr> name_to_value := AList.update nm v (name_to_value e),
        values :=
          (case map_of (values e) v of
             None \<Rightarrow> AList.update v nm (values e)
           | Some old \<Rightarrow>
               if length old > length nm then AList.update v nm (values e)
               else values e) \<rparr>"

text \<open>
  \<open>VkEnum.add_value(name, value, extnum, offset, alias, error)\<close>, on the enum as explicit
  state. The method calls itself for every alias that waited for \<open>name\<close>, and a cycle
  among the waiting aliases makes it recurse until Python's recursion limit: the first
  argument is the number of frames left, and \<open>RecursionError\<close> the result when none is.
  \<open>add_aliases\<close> is the loop of lines 319 and 320 over the list found at line 318; the
  calls inside it never append to a waiting list, so the list it walks is fixed.
\<close>

fun add_value ::
    "nat \<Rightarrow> VkEnum \<Rightarrow> string \<Rightarrow> int option \<Rightarrow> int option \<Rightarrow> int option \<Rightarrow> string option \<Rightarrow> bool
      \<Rightarrow> py_error + VkEnum"
  and add_aliases :: "nat \<Rightarrow> VkEnum \<Rightarrow> string list \<Rightarrow> int \<Rightarrow> py_error + VkEnum" where
  "add_value 0 e nm val extnum offset alias err = Inl RecursionError"
| "add_value (Suc depth) e nm val extnum offset alias err =
     (if alias \<noteq> None \<and> (val \<noteq> None \<or> offset \<noteq> None) then Inl AssertionError
      else if alias \<noteq> None \<and> map_of (name_to_value e) (the alias) = None then
        Inr (e\<lparr> name_to_alias_list :=
                   AList.update (the alias)
                     ((case map_of (name_to_alias_list e) (the alias) of
                         None \<Rightarrow> [] | Some alias_list \<Rightarrow> alias_list) @ [nm])
                     (name_to_alias_list e) \<rparr>)
      else
        (case offset_value (if alias \<noteq> None then map_of (name_to_value e) (the alias) else val)
                 extnum offset err of
           Inl x \<Rightarrow> Inl x
         | Inr v \<Rightarrow>
             (let e1 = set_value e nm v in
              case map_of (name_to_alias_list e1) nm of
                None \<Rightarrow> Inr e1
              | Some alias_list \<Rightarrow>
                  (case add_aliases depth e1 alias_list v of
                     Inl x \<Rightarrow> Inl x
                   | Inr e2 \<Rightarrow>
                       if map_of (name_to_alias_list e2) nm = None then Inl KeyError
                       else Inr (e2\<lparr> name_to_alias_list :=
                                        AList.delete nm (name_to_alias_list e2) \<rparr>)))))"
| "add_aliases depth e [] v = Inr e"
| "add_aliases depth e (a # as) v =
     (case add_value depth e a (Some v) None None None False of
        Inl x \<Rightarrow> Inl x
      | Inr e' \<Rightarrow> add_aliases depth e' as v)"

text \<open>
  An \<open><enum>\<close> element with its attributes already read: \<open>int(..., base=0)\<close> has
  been applied to \<open>value\<close>, \<open>bitpos\<close>, \<open>extnumber\<close> and \<open>offset\<close> where they are
  present.
\<close>

record enum_elem =
  attr_name :: string
  attr_value :: "int option"
  attr_bitpos :: "int option"
  attr_alias :: "string option"
  attr_dir :: "string option"
  attr_extnumber :: "int option"
  attr_offset :: "int option"

text \<open>
  \<open>VkEnum.add_value_from_xml(elem, extension)\<close>. A negative shift count raises
  \<open>ValueError\<close>, a missing \<open>offset\<close> attribute \<open>KeyError\<close>, and a missing extension
  \<open>AttributeError\<close> when its number is read.
\<close>

definition add_value_from_xml ::
    "nat \<Rightarrow> VkEnum \<Rightarrow> enum_elem \<Rightarrow> VkExtension option \<Rightarrow> py_error + VkEnum" where
  "add_value_from_xml depth e0 elem ext =
     (let e = e0\<lparr> extension := ext \<rparr> in
      case attr_value elem of
        Some v \<Rightarrow> add_value depth e (attr_name elem) (Some v) None None None False
      | None \<Rightarrow>
          (case attr_bitpos elem of
             Some b \<Rightarrow>
               if b < 0 then Inl ValueError
               else add_value depth e (attr_name elem) (Some (push_bit (nat b) 1)) None None None False
           | None \<Rightarrow>
               (case attr_alias elem of
                  Some a \<Rightarrow> add_value depth e (attr_name elem) None None None (Some a) False
                | None \<Rightarrow>
                    (let err = (attr_dir elem = Some ''-'') in
                     case (case attr_extnumber elem of
                             Some n \<Rightarrow> Inr (Some n)
                           | None \<Rightarrow>
                               (case ext of
                                  None \<Rightarrow> Inl AttributeError
                                | Some x \<Rightarrow> Inr (number x))) of
                       Inl x \<Rightarrow> Inl x
                     | Inr extnum \<Rightarrow>
                         (case attr_offset elem of
                            None \<Rightarrow> Inl KeyError
                          | Some off \<Rightarrow>
                              add_value depth e (attr_name elem) None extnum (Some off) None err)))))"

text \<open>
  The loops of \<open>parse_xml\<close> that feed one enum:
  \<open>for value in ...: enum.add_value_from_xml(value, extension)\<close>.
  The first exception ends the run.
\<close>

fun add_values_from_xml ::
    "nat \<Rightarrow> VkEnum \<Rightarrow> (enum_elem \<times> VkExtension option) list \<Rightarrow> py_error + VkEnum" where
  "add_values_from_xml depth e [] = Inr e"
| "add_values_from_xml depth e ((elem, ext) # rest) =
     (case add_value_from_xml depth e elem ext of
        Inl x \<Rightarrow> Inl x
      | Inr e' \<Rightarrow> add_values_from_xml depth e' rest)"

definition elem_value :: "string \<Rightarrow> int \<Rightarrow> enum_elem" where
  "elem_value nm v =
     \<lparr> attr_name = nm, attr_value = Some v, attr_bitpos = None, attr_alias = None,
       attr_dir = None, attr_extnumber = None, attr_offset = None \<rparr>"

definition elem_alias :: "string \<Rightarrow> string \<Rightarrow> enum_elem" where
  "elem_alias nm a =
     \<lparr> attr_name = nm, attr_value = None, attr_bitpos = None, attr_alias = Some a,
       attr_dir = None, attr_extnumber = None, attr_offset = None \<rparr>"

section \<open>What the maps of a loaded enum satisfy\<close>

text \<open>
  Two facts hold of a new enum and after every returning call of \<open>add_value\<close>: nobody
  waits for a name that has a value (line 321 removes the waiting list of every name that
  gets one), and the \<open>values\<close> map has, for the value of every name, a name that is not
  longer.
\<close>

definition enum_ok :: "VkEnum \<Rightarrow> bool" where
  "enum_ok e \<longleftrightarrow>
     (\<forall>b \<in> fst ` set (name_to_alias_list e). map_of (name_to_value e) b = None) \<and>
     (\<forall>n \<in> fst ` set (name_to_value e).
        case map_of (name_to_value e) n of
          None \<Rightarrow> True
        | Some v \<Rightarrow>
            (case map_of (values e) v of None \<Rightarrow> False | Some c \<Rightarrow> length c \<le> length n))"

text \<open>The same two facts, as a set and as a predicate on the two value maps.\<close>

definition waiting_resolved :: "VkEnum \<Rightarrow> string set" where
  "waiting_resolved e =
     {b \<in> fst ` set (name_to_alias_list e). map_of (name_to_value e) b \<noteq> None}"

definition short_names :: "(string \<times> int) list \<Rightarrow> (int \<times> string) list \<Rightarrow> bool" where
  "short_names ntv vals \<longleftrightarrow>
     (\<forall>n v. map_of ntv n = Some v \<longrightarrow> (\<exists>c. map_of vals v = Some c \<and> length c \<le> length n))"

section \<open>Aliases that stay unresolved\<close>

text \<open>
  \<open>absent e nm base\<close>: the name has no value, is the canonical name of no value, and
  is in no waiting list but that of \<open>base\<close>. \<open>waits_for e nm base\<close>: it is in the
  waiting list of \<open>base\<close>.
\<close>

definition absent :: "VkEnum \<Rightarrow> string \<Rightarrow> string \<Rightarrow> bool" where
  "absent e nm base \<longleftrightarrow>
     map_of (name_to_value e) nm = None \<and>
     nm \<notin> snd ` set (values e) \<and>
     (\<forall>p \<in> set (name_to_alias_list e). nm \<in> set (snd p) \<longrightarrow> fst p = base)"

definition waits_for :: "VkEnum \<Rightarrow> string \<Rightarrow> string \<Rightarrow> bool" where
  "waits_for e nm base \<longleftrightarrow>
     (case map_of (name_to_alias_list e) base of None \<Rightarrow> False | Some l \<Rightarrow> nm \<in> set l)"

section \<open>Canonical names\<close>

text \<open>
  The names that resolve to \<open>v\<close>, in the order in which \<open>name_to_value\<close> received them
  (a Python dict keeps its keys in insertion order).
\<close>

definition names_of :: "VkEnum \<Rightarrow> int \<Rightarrow> string list" where
  "names_of e v = map fst (filter (\<lambda>p. snd p = v) (name_to_value e))"

text \<open>
  \<open>c\<close> is the shortest of the names, and the earliest among those of its length: no name
  is shorter, and every name before it is longer.
\<close>

definition canonical_for :: "string list \<Rightarrow> string \<Rightarrow> bool" where
  "canonical_for ns c \<longleftrightarrow>
     c \<in> set ns \<and> (\<forall>m \<in> set ns. length c \<le> length m) \<and>
     (\<forall>m \<in> set (takeWhile (\<lambda>x. x \<noteq> c) ns). length c < length m)"

text \<open>Every number that is a key of \<open>values\<close> or the value of a name has such a name.\<close>

definition canonical :: "VkEnum \<Rightarrow> bool" where
  "canonical e \<longleftrightarrow>
     distinct (map fst (name_to_value e)) \<and>
     (\<forall>v \<in> fst ` set (values e) \<union> snd ` set (name_to_value e).
        case map_of (values e) v of
          None \<Rightarrow> False
        | Some c \<Rightarrow> canonical_for (names_of e v) c)"

text \<open>No name that had a value in \<open>e\<close> has another one in \<open>e'\<close>.\<close>

definition keeps_values :: "VkEnum \<Rightarrow> VkEnum \<Rightarrow> bool" where
  "keeps_values e e' \<longleftrightarrow>
     (\<forall>p \<in> set (name_to_value e). map_of (name_to_value e') (fst p) = Some (snd p))"

section \<open>Alias chains\<close>

text \<open>
  A chain is a list of names: the first is declared with the number \<open>v\<close>, and every later
  one as an alias of the name before it. \<open>chain_elems\<close> are these declarations, and
  \<open>chain_elem cs v i\<close> is the declaration of the name at position \<open>i\<close>.
\<close>

definition chain_elems :: "string list \<Rightarrow> int \<Rightarrow> enum_elem list" where
  "chain_elems cs v =
     elem_value (hd cs) v # map (\<lambda>(a, b). elem_alias a b) (zip (tl cs) cs)"

definition chain_elem :: "string list \<Rightarrow> int \<Rightarrow> nat \<Rightarrow> enum_elem" where
  "chain_elem cs v i =
     (if i = 0 then elem_value (cs ! 0) v else elem_alias (cs ! i) (cs ! (i - 1)))"

text \<open>
  The maps of an enum on the names of a chain while its declarations are processed:
  the first \<open>r\<close> names have the value, the others have none; the name at \<open>i\<close> has the
  waiting list \<open>[cs ! Suc i]\<close> if \<open>i\<close> is in \<open>[a, b)\<close>, or if \<open>i\<close> is at least \<open>t\<close> and the
  next name is declared (\<open>D\<close> is the set of positions declared), and no waiting list
  otherwise.
\<close>

definition chain_shape ::
    "string list \<Rightarrow> int \<Rightarrow> nat set \<Rightarrow> VkEnum \<Rightarrow> nat \<Rightarrow> nat \<Rightarrow> nat \<Rightarrow> nat \<Rightarrow> bool" where
  "chain_shape cs v D x r a b t \<longleftrightarrow>
     (\<forall>i < length cs. map_of (name_to_value x) (cs ! i) = (if i < r then Some v else None)) \<and>
     (\<forall>i < length cs. map_of (name_to_alias_list x) (cs ! i) =
        (if (a \<le> i \<and> i < b) \<or> (t \<le> i \<and> Suc i \<in> D) then Some [cs ! Suc i] else None))"

text \<open>
  The state between two declarations: the declared positions are below the length, the
  resolved names are those before the first position that is not declared, and the
  waiting lists are those of the declared positions after it.
\<close>

definition chain_inv :: "string list \<Rightarrow> int \<Rightarrow> nat set \<Rightarrow> nat \<Rightarrow> VkEnum \<Rightarrow> bool" where
  "chain_inv cs v D r x \<longleftrightarrow>
     D \<subseteq> {0..<length cs} \<and> r \<le> length cs \<and> r \<notin> D \<and> (\<forall>i < r. i \<in> D) \<and>
     chain_shape cs v D x r r r r"

section \<open>The sentinel name as the specification words it\<close>





section \<open>Basic facts about \<open>add_value\<close>\<close>

lemma pend_set_value [simp]: "name_to_alias_list (set_value e nm v) = name_to_alias_list e"
  by (simp add: set_value_def)

lemma ntv_set_value [simp]:
  "name_to_value (set_value e nm v) = AList.update nm v (name_to_value e)"
  by (simp add: set_value_def)

lemma add_value_0 [simp]: "add_value 0 e nm val extnum offset alias err \<noteq> Inr e'"
  by simp

lemma add_value_Some:
  "add_value (Suc d) e nm (Some v) None None None False =
     (case map_of (name_to_alias_list e) nm of
        None \<Rightarrow> Inr (set_value e nm v)
      | Some al \<Rightarrow>
          (case add_aliases d (set_value e nm v) al v of
             Inl x \<Rightarrow> Inl x
           | Inr e2 \<Rightarrow>
               if map_of (name_to_alias_list e2) nm = None then Inl KeyError
               else Inr (e2\<lparr> name_to_alias_list := AList.delete nm (name_to_alias_list e2) \<rparr>)))"
  by (simp add: offset_value_def Let_def)

lemma offset_value_Some [simp]: "offset_value (Some v) extnum offset err = Inr v"
  by (simp add: offset_value_def)

lemma add_value_Suc:
  "add_value (Suc d) e nm val extnum offset alias err =
     (if alias \<noteq> None \<and> (val \<noteq> None \<or> offset \<noteq> None) then Inl AssertionError
      else if alias \<noteq> None \<and> map_of (name_to_value e) (the alias) = None then
        Inr (e\<lparr> name_to_alias_list :=
                   AList.update (the alias)
                     ((case map_of (name_to_alias_list e) (the alias) of
                         None \<Rightarrow> [] | Some l \<Rightarrow> l) @ [nm])
                     (name_to_alias_list e) \<rparr>)
      else
        (case offset_value (if alias \<noteq> None then map_of (name_to_value e) (the alias) else val)
                 extnum offset err of
           Inl x \<Rightarrow> Inl x
         | Inr v \<Rightarrow>
             (case map_of (name_to_alias_list e) nm of
                None \<Rightarrow> Inr (set_value e nm v)
              | Some al \<Rightarrow>
                  (case add_aliases d (set_value e nm v) al v of
                     Inl x \<Rightarrow> Inl x
                   | Inr e2 \<Rightarrow>
                       if map_of (name_to_alias_list e2) nm = None then Inl KeyError
                       else Inr (e2\<lparr> name_to_alias_list :=
                                        AList.delete nm (name_to_alias_list e2) \<rparr>)))))"
  by (simp add: Let_def split: sum.splits)

declare add_value.simps(2) [simp del]

text \<open>Every successful call either parks the name or registers it with a resolved value.\<close>

lemma add_value_cases:
  assumes "add_value d e nm val extnum offset alias err = Inr e'"
  obtains
    (parked) a where "alias = Some a" and "map_of (name_to_value e) a = None"
      and "e' = e\<lparr> name_to_alias_list :=
                     AList.update a
                       ((case map_of (name_to_alias_list e) a of None \<Rightarrow> [] | Some l \<Rightarrow> l) @ [nm])
                       (name_to_alias_list e) \<rparr>"
  | (resolved) v where "add_value d e nm (Some v) None None None False = Inr e'"
      and "case alias of Some a \<Rightarrow> map_of (name_to_value e) a = Some v
           | None \<Rightarrow> offset_value val extnum offset err = Inr v"
proof (cases d)
  case 0
  with assms show ?thesis by simp
next
  case (Suc d')
  show ?thesis
  proof (cases "alias \<noteq> None \<and> map_of (name_to_value e) (the alias) = None")
    case True
    with assms Suc show ?thesis
      by (intro parked[of "the alias"]) (auto simp: add_value_Suc split: if_splits)
  next
    case False
    with assms Suc obtain v where
      v: "offset_value (if alias \<noteq> None then map_of (name_to_value e) (the alias) else val)
            extnum offset err = Inr v"
      and r: "add_value d e nm (Some v) None None None False = Inr e'"
      by (auto simp: add_value_Suc add_value_Some split: if_splits sum.splits)
    from v False have "case alias of Some a \<Rightarrow> map_of (name_to_value e) a = Some v
           | None \<Rightarrow> offset_value val extnum offset err = Inr v"
      by (auto split: option.splits)
    with r show ?thesis by (rule resolved)
  qed
qed

text \<open>A property that every registering call of depth \<open>d\<close> keeps is kept by the loop.\<close>

lemma add_aliases_invariant:
  assumes "add_aliases d e al v = Inr e'"
    and "I e"
    and "\<And>e1 a e2. a \<in> set al \<Longrightarrow> I e1 \<Longrightarrow>
           add_value d e1 a (Some v) None None None False = Inr e2 \<Longrightarrow> I e2"
  shows "I e'"
  using assms
proof (induction al arbitrary: e)
  case Nil
  then show ?case by simp
next
  case (Cons a as)
  from Cons.prems(1) obtain e1 where
    e1: "add_value d e a (Some v) None None None False = Inr e1"
    and rest: "add_aliases d e1 as v = Inr e'"
    by (auto split: sum.splits)
  have "I e1" using Cons.prems(3)[of a e e1] Cons.prems(2) e1 by simp
  with rest Cons.IH[of e1] Cons.prems(3) show ?case by auto
qed

lemma add_value_Some_cases:
  assumes "add_value d e nm (Some v) None None None False = Inr e'"
  obtains
    (plain) d' where "d = Suc d'" and "map_of (name_to_alias_list e) nm = None"
      and "e' = set_value e nm v"
  | (flushed) d' al e2 where "d = Suc d'" and "map_of (name_to_alias_list e) nm = Some al"
      and "add_aliases d' (set_value e nm v) al v = Inr e2"
      and "map_of (name_to_alias_list e2) nm \<noteq> None"
      and "e' = e2\<lparr> name_to_alias_list := AList.delete nm (name_to_alias_list e2) \<rparr>"
proof (cases d)
  case 0
  with assms show ?thesis by simp
next
  case (Suc d')
  with assms show ?thesis
    by (auto simp: add_value_Some split: option.splits sum.splits if_splits intro: plain flushed)
qed

text \<open>A name that has the value being registered keeps it.\<close>

lemma add_value_keeps_value:
  "add_value d e nm (Some v) None None None False = Inr e' \<Longrightarrow>
   map_of (name_to_value e) x = Some v \<Longrightarrow> map_of (name_to_value e') x = Some v"
proof (induction d arbitrary: e nm e')
  case 0
  then show ?case by simp
next
  case (Suc d)
  from Suc.prems(1) show ?case
  proof (cases rule: add_value_Some_cases)
    case (plain d')
    with Suc.prems(2) show ?thesis by (simp add: update_conv')
  next
    case (flushed d' al e2)
    then have d': "d' = d" by simp
    have "map_of (name_to_value (set_value e nm v)) x = Some v"
      using Suc.prems(2) by (simp add: update_conv')
    with flushed(3) have "map_of (name_to_value e2) x = Some v"
      unfolding d'
      by (rule add_aliases_invariant[where I = "\<lambda>e. map_of (name_to_value e) x = Some v"])
        (use Suc.IH in blast)
    with flushed(5) show ?thesis by simp
  qed
qed

lemma add_value_registers:
  assumes "add_value d e nm (Some v) None None None False = Inr e'"
  shows "map_of (name_to_value e') nm = Some v"
  using assms
proof (cases rule: add_value_Some_cases)
  case (plain d')
  then show ?thesis by (simp add: update_conv')
next
  case (flushed d' al e2)
  have "map_of (name_to_value (set_value e nm v)) nm = Some v"
    by (simp add: update_conv')
  with flushed(3) have "map_of (name_to_value e2) nm = Some v"
    by (rule add_aliases_invariant[where I = "\<lambda>e. map_of (name_to_value e) nm = Some v"])
      (use add_value_keeps_value in blast)
  with flushed(5) show ?thesis by simp
qed

section \<open>Extension-relative values\<close>

text \<open>
  C3. A constant declared with an extension number and an offset gets the value
  \<open>1000000000 + (extnum - 1) * 1000 + offset\<close>, negated when the error flag is set:
  that is what lines 305 to 309 compute, what every returning call of \<open>add_value\<close>
  leaves under the constant's name, and what a call for a name nobody waits for returns;
  \<open>add_value_from_xml\<close> passes the element's \<open>extnumber\<close> (or else the extension's
  number), its \<open>offset\<close>, and the flag \<open>dir = "-"\<close>. Extension 5 with offset 3 gives
  1000004003, and -1000004003 when negated.
\<close>

theorem extension_offset_value:
  "(let x = (if err then - (1000000000 + (extnum - 1) * 1000 + offset)
             else 1000000000 + (extnum - 1) * 1000 + offset) in
      offset_value None (Some extnum) (Some offset) err = Inr x
      \<and> (add_value d e nm None (Some extnum) (Some offset) None err = Inr e'
           \<longrightarrow> map_of (name_to_value e') nm = Some x)
      \<and> (map_of (name_to_alias_list e) nm = None
           \<longrightarrow> add_value (Suc d) e nm None (Some extnum) (Some offset) None err
                 = Inr (set_value e nm x))
      \<and> (map_of (name_to_alias_list e) nm = None
           \<and> attr_name elem = nm \<and> attr_value elem = None \<and> attr_bitpos elem = None
           \<and> attr_alias elem = None \<and> attr_offset elem = Some offset
           \<and> (case attr_extnumber elem of
                 Some n \<Rightarrow> Some n
               | None \<Rightarrow> (case ext of Some x \<Rightarrow> number x | None \<Rightarrow> None)) = Some extnum
           \<and> err = (attr_dir elem = Some ''-'')
           \<longrightarrow> add_value_from_xml (Suc d) e elem ext
                 = Inr (set_value (e\<lparr> extension := ext \<rparr>) nm x)))
   \<and> offset_value None (Some 5) (Some 3) False = Inr 1000004003
   \<and> offset_value None (Some 5) (Some 3) True = Inr (- 1000004003)"
proof -
  define x where "x = (if err then - (1000000000 + (extnum - 1) * 1000 + offset)
             else 1000000000 + (extnum - 1) * 1000 + offset)"
  have ov: "offset_value None (Some extnum) (Some offset) err = Inr x"
    by (simp add: offset_value_def x_def)
  have ret: "map_of (name_to_value e') nm = Some x"
    if "add_value d e nm None (Some extnum) (Some offset) None err = Inr e'"
    using that
  proof (cases rule: add_value_cases)
    case (parked a)
    then show ?thesis by simp
  next
    case (resolved v)
    with ov have "v = x" by simp
    with resolved(1) show ?thesis by (simp add: add_value_registers)
  qed
  have plain: "add_value (Suc d) e0 nm None (Some extnum) (Some offset) None err
                 = Inr (set_value e0 nm x)"
    if "map_of (name_to_alias_list e0) nm = None" for e0
    using that by (simp add: add_value_Suc ov add_value_Some)
  have xml: "add_value_from_xml (Suc d) e elem ext
                 = Inr (set_value (e\<lparr> extension := ext \<rparr>) nm x)"
    if "map_of (name_to_alias_list e) nm = None
           \<and> attr_name elem = nm \<and> attr_value elem = None \<and> attr_bitpos elem = None
           \<and> attr_alias elem = None \<and> attr_offset elem = Some offset
           \<and> (case attr_extnumber elem of
                 Some n \<Rightarrow> Some n
               | None \<Rightarrow> (case ext of Some x \<Rightarrow> number x | None \<Rightarrow> None)) = Some extnum
           \<and> err = (attr_dir elem = Some ''-'')"
  proof -
    have "add_value (Suc d) (e\<lparr> extension := ext \<rparr>) nm None (Some extnum) (Some offset) None err
            = Inr (set_value (e\<lparr> extension := ext \<rparr>) nm x)"
      using that by (intro plain) simp
    with that show ?thesis
      by (auto simp: add_value_from_xml_def Let_def split: option.splits)
  qed
  have "offset_value None (Some 5) (Some 3) False = Inr 1000004003"
    and "offset_value None (Some 5) (Some 3) True = Inr (- 1000004003)"
    by (simp_all add: offset_value_def)
  with ov ret plain xml show ?thesis
    unfolding Let_def x_def [symmetric] by blast
qed

theorem extension_offset_value_witness:
  "map_of (name_to_alias_list (VkEnum_init ''VkResult'' 32)) ''VK_ERROR_X'' = None
   \<and> add_value (Suc 0) (VkEnum_init ''VkResult'' 32) ''VK_ERROR_X'' None (Some 5) (Some 3) None True
       = Inr (set_value (VkEnum_init ''VkResult'' 32) ''VK_ERROR_X'' (- 1000004003))
   \<and> map_of (name_to_value (set_value (VkEnum_init ''VkResult'' 32) ''VK_ERROR_X'' (- 1000004003)))
        ''VK_ERROR_X'' = Some (- 1000004003)
   \<and> add_value_from_xml (Suc 0) (VkEnum_init ''VkResult'' 32)
        \<lparr> attr_name = ''VK_ERROR_X'', attr_value = None, attr_bitpos = None, attr_alias = None,
          attr_dir = Some ''-'', attr_extnumber = Some 5, attr_offset = Some 3 \<rparr> None
       = Inr (set_value (VkEnum_init ''VkResult'' 32) ''VK_ERROR_X'' (- 1000004003))"
proof -
  let ?e = "VkEnum_init ''VkResult'' 32"
  let ?el = "\<lparr> attr_name = ''VK_ERROR_X'', attr_value = None, attr_bitpos = None,
     attr_alias = None, attr_dir = Some ''-'', attr_extnumber = Some 5, attr_offset = Some 3 \<rparr>"
  have p: "map_of (name_to_alias_list ?e) ''VK_ERROR_X'' = None"
    by (simp add: VkEnum_init_def)
  have ext: "?e\<lparr> extension := None \<rparr> = ?e"
    by (simp add: VkEnum_init_def)
  note t = extension_offset_value
    [of True 5 3 0 ?e "''VK_ERROR_X''"
        "set_value ?e ''VK_ERROR_X'' (- 1000004003)" ?el None]
  from t p have a: "add_value (Suc 0) ?e ''VK_ERROR_X'' None (Some 5) (Some 3) None True
       = Inr (set_value ?e ''VK_ERROR_X'' (- 1000004003))"
    by (simp add: Let_def)
  note t2 = extension_offset_value
    [of True 5 3 "Suc 0" ?e "''VK_ERROR_X''"
        "set_value ?e ''VK_ERROR_X'' (- 1000004003)" ?el None]
  from t2 a have b: "map_of (name_to_value (set_value ?e ''VK_ERROR_X'' (- 1000004003)))
        ''VK_ERROR_X'' = Some (- 1000004003)"
    unfolding Let_def by (simp del: ntv_set_value)
  from t p have c: "add_value_from_xml (Suc 0) ?e ?el None
       = Inr (set_value ?e ''VK_ERROR_X'' (- 1000004003))"
    by (simp add: Let_def ext)
  from p a b c show ?thesis by blast
qed

section \<open>The all-bits mask\<close>


lemma keys_set_value:
  "fst ` set (values (set_value e nm v)) = insert v (fst ` set (values e))"
proof (cases "map_of (values e) v")
  case None
  then show ?thesis by (simp add: set_value_def dom_update)
next
  case (Some old)
  then have "v \<in> fst ` set (values e)"
    by (metis map_of_eq_None_iff option.distinct(1))
  with Some show ?thesis by (auto simp: set_value_def dom_update)
qed




section \<open>Re-declaring a pair\<close>

text \<open>What holds of the two value maps and is kept by lines 311 to 315 is kept by a call.\<close>

lemma add_value_maps_invariant:
  assumes "add_value d e nm (Some v) None None None False = Inr e'"
    and "P (name_to_value e) (values e)"
    and "\<And>x n. P (name_to_value x) (values x) \<Longrightarrow>
           P (name_to_value (set_value x n v)) (values (set_value x n v))"
  shows "P (name_to_value e') (values e')"
  using assms(1,2)
proof (induction d arbitrary: e nm e')
  case 0
  then show ?case by simp
next
  case (Suc d)
  from Suc.prems(1) show ?case
  proof (cases rule: add_value_Some_cases)
    case (plain d')
    with Suc.prems(2) assms(3) show ?thesis by simp
  next
    case (flushed d' al e2)
    then have d': "d' = d" by simp
    let ?I = "\<lambda>x. P (name_to_value x) (values x)"
    have "?I (set_value e nm v)" using Suc.prems(2) assms(3) by simp
    with flushed(3) have "?I e2"
      unfolding d'
      by (rule add_aliases_invariant[where I = ?I]) (use Suc.IH in auto)
    with flushed(5) show ?thesis by simp
  qed
qed

lemma values_set_value:
  "map_of (values (set_value e nm v)) u =
     (if u = v
      then Some (case map_of (values e) v of
                   None \<Rightarrow> nm
                 | Some old \<Rightarrow> if length old > length nm then nm else old)
      else map_of (values e) u)"
  by (cases "map_of (values e) v") (auto simp: set_value_def update_conv')

lemma short_names_set_value:
  assumes "short_names (name_to_value x) (values x)"
  shows "short_names (name_to_value (set_value x n v)) (values (set_value x n v))"
  unfolding short_names_def
proof (intro allI impI)
  fix m w
  assume m: "map_of (name_to_value (set_value x n v)) m = Some w"
  let ?vals = "values (set_value x n v)"
  have new: "\<exists>c. map_of ?vals v = Some c \<and> length c \<le> length n"
    by (cases "map_of (values x) v") (auto simp: values_set_value)
  have old: "\<exists>c. map_of ?vals u = Some c \<and> length c \<le> length k"
    if "map_of (values x) u = Some c0" and "length c0 \<le> length k" for u c0 k
    using that by (cases "u = v") (auto simp: values_set_value)
  show "\<exists>c. map_of ?vals w = Some c \<and> length c \<le> length m"
  proof (cases "m = n")
    case True
    with m have "w = v" by (simp add: update_conv')
    with new True show ?thesis by simp
  next
    case False
    with m have "map_of (name_to_value x) m = Some w" by (simp add: update_conv')
    with assms obtain c0 where "map_of (values x) w = Some c0" "length c0 \<le> length m"
      unfolding short_names_def by blast
    then show ?thesis by (rule old)
  qed
qed

lemma keys_delete: "fst ` set (AList.delete k al) = fst ` set al - {k}"
proof -
  have "fst ` set (AList.delete k al) = set (map fst (AList.delete k al))" by simp
  also have "\<dots> = set (map fst al) - {k}" by (simp only: delete_keys set_removeAll)
  finally show ?thesis by simp
qed

lemma add_value_waiting_resolved:
  "add_value d e nm (Some v) None None None False = Inr e' \<Longrightarrow>
   waiting_resolved e' \<subseteq> waiting_resolved e"
proof (induction d arbitrary: e nm e')
  case 0
  then show ?case by simp
next
  case (Suc d)
  from Suc.prems show ?case
  proof (cases rule: add_value_Some_cases)
    case (plain d')
    from plain(2) have "nm \<notin> fst ` set (name_to_alias_list e)"
      by (simp add: map_of_eq_None_iff)
    with plain(3) show ?thesis
      by (auto simp: waiting_resolved_def update_conv')
  next
    case (flushed d' al e2)
    then have d': "d' = d" by simp
    let ?I = "\<lambda>x. waiting_resolved x \<subseteq> insert nm (waiting_resolved e)"
    have "?I (set_value e nm v)"
      by (auto simp: waiting_resolved_def update_conv')
    with flushed(3) have "?I e2"
      unfolding d'
      by (rule add_aliases_invariant[where I = ?I]) (use Suc.IH in blast)
    moreover have "waiting_resolved e' \<subseteq> waiting_resolved e2 - {nm}"
      using flushed(5) by (auto simp: waiting_resolved_def keys_delete)
    ultimately show ?thesis by blast
  qed
qed

lemma enum_ok_iff:
  "enum_ok e \<longleftrightarrow> waiting_resolved e = {} \<and> short_names (name_to_value e) (values e)"
proof -
  let ?A = "\<forall>n \<in> fst ` set (name_to_value e).
        case map_of (name_to_value e) n of
          None \<Rightarrow> True
        | Some v \<Rightarrow>
            (case map_of (values e) v of None \<Rightarrow> False | Some c \<Rightarrow> length c \<le> length n)"
  have "?A \<longleftrightarrow> short_names (name_to_value e) (values e)"
  proof
    assume a: ?A
    show "short_names (name_to_value e) (values e)"
      unfolding short_names_def
    proof (intro allI impI)
      fix n v
      assume nv: "map_of (name_to_value e) n = Some v"
      then have "n \<in> fst ` set (name_to_value e)"
        by (metis map_of_eq_None_iff option.distinct(1))
      with a nv show "\<exists>c. map_of (values e) v = Some c \<and> length c \<le> length n"
        by (fastforce split: option.splits)
    qed
  next
    assume s: "short_names (name_to_value e) (values e)"
    show ?A
    proof
      fix n
      assume "n \<in> fst ` set (name_to_value e)"
      show "case map_of (name_to_value e) n of
          None \<Rightarrow> True
        | Some v \<Rightarrow>
            (case map_of (values e) v of None \<Rightarrow> False | Some c \<Rightarrow> length c \<le> length n)"
      proof (cases "map_of (name_to_value e) n")
        case None
        then show ?thesis by simp
      next
        case (Some v)
        with s obtain c where "map_of (values e) v = Some c" "length c \<le> length n"
          unfolding short_names_def by blast
        with Some show ?thesis by simp
      qed
    qed
  qed
  then show ?thesis
    by (auto simp: enum_ok_def waiting_resolved_def)
qed

lemma enum_ok_init: "enum_ok (VkEnum_init ename bw)"
  by (simp add: enum_ok_def VkEnum_init_def)

lemma add_value_enum_ok:
  assumes "add_value d e nm val extnum offset alias err = Inr e'" and "enum_ok e"
  shows "enum_ok e'"
  using assms(1)
proof (cases rule: add_value_cases)
  case (parked a)
  with assms(2) show ?thesis
    by (auto simp: enum_ok_iff waiting_resolved_def dom_update)
next
  case (resolved v)
  from resolved(1) have "waiting_resolved e' \<subseteq> waiting_resolved e"
    by (rule add_value_waiting_resolved)
  moreover from resolved(1) have "short_names (name_to_value e') (values e')"
    by (rule add_value_maps_invariant)
      (use assms(2) short_names_set_value in \<open>auto simp: enum_ok_iff\<close>)
  ultimately show ?thesis using assms(2) by (auto simp: enum_ok_iff)
qed

lemma enum_ok_extension [simp]: "enum_ok (e\<lparr> extension := x \<rparr>) = enum_ok e"
  by (simp add: enum_ok_iff waiting_resolved_def)

lemma add_value_from_xml_enum_ok:
  assumes "add_value_from_xml d e elem ext = Inr e'" and "enum_ok e"
  shows "enum_ok e'"
proof -
  from assms(1) obtain val extnum offset al err where
    "add_value d (e\<lparr> extension := ext \<rparr>) (attr_name elem) val extnum offset al err = Inr e'"
    unfolding add_value_from_xml_def Let_def
    by (auto split: option.splits if_splits sum.splits)
  then show ?thesis by (rule add_value_enum_ok) (simp add: assms(2))
qed

lemma add_values_from_xml_enum_ok:
  "add_values_from_xml d e elems = Inr e' \<Longrightarrow> enum_ok e \<Longrightarrow> enum_ok e'"
proof (induction elems arbitrary: e)
  case Nil
  then show ?case by simp
next
  case (Cons p elems)
  obtain elem ext where p: "p = (elem, ext)" by (cases p)
  from Cons.prems(1) obtain e1 where
    "add_value_from_xml d e elem ext = Inr e1" "add_values_from_xml d e1 elems = Inr e'"
    unfolding p by (auto split: sum.splits)
  with Cons.IH[of e1] Cons.prems(2) show ?case
    by (blast intro: add_value_from_xml_enum_ok)
qed

lemma set_value_same:
  assumes "enum_ok e" and "map_of (name_to_value e) nm = Some v"
  shows "set_value e nm v = e"
proof -
  from assms obtain c where "map_of (values e) v = Some c" "length c \<le> length nm"
    unfolding enum_ok_iff short_names_def by blast
  with assms(2) show ?thesis
    by (simp add: set_value_def update_triv)
qed

text \<open>
  C9. In an enum as the loader builds it (\<open>enum_ok\<close>: it holds of a new enum and after
  every returning call, so of every enum that \<open>add_values_from_xml\<close> returns), declaring
  again a name with the value it already has changes nothing: \<open>add_value\<close> returns the
  enum it was given, with the same name-to-value map, value-to-name map and waiting
  aliases, whether the value comes as a number or through an alias that has it.
  \<open>add_value_from_xml\<close> stores the extension it was called with and changes nothing else.
\<close>

theorem redeclare_is_noop:
  "(enum_ok e \<and> map_of (name_to_value e) nm = Some v
      \<longrightarrow> add_value (Suc d) e nm (Some v) None None None False = Inr e)
   \<and> (enum_ok e \<and> map_of (name_to_value e) nm = Some v \<and> map_of (name_to_value e) a = Some v
      \<longrightarrow> add_value (Suc d) e nm None None None (Some a) err = Inr e)
   \<and> (enum_ok e \<and> map_of (name_to_value e) nm = Some v
      \<longrightarrow> add_value_from_xml (Suc d) e (elem_value nm v) ext = Inr (e\<lparr> extension := ext \<rparr>))
   \<and> (add_values_from_xml fuel (VkEnum_init ename bw) elems = Inr e \<longrightarrow> enum_ok e)"
proof -
  have noop: "add_value (Suc d) x nm (Some v) None None None False = Inr x"
    if "enum_ok x" and "map_of (name_to_value x) nm = Some v" for x
  proof -
    from that have "nm \<notin> fst ` set (name_to_alias_list x)"
      by (auto simp: enum_ok_def)
    then have "map_of (name_to_alias_list x) nm = None"
      by (simp add: map_of_eq_None_iff)
    with that show ?thesis
      by (simp add: add_value_Some set_value_same)
  qed
  have via_alias: "add_value (Suc d) e nm None None None (Some a) err = Inr e"
    if "enum_ok e" and "map_of (name_to_value e) nm = Some v"
      and "map_of (name_to_value e) a = Some v"
  proof -
    have "add_value (Suc d) e nm None None None (Some a) err
            = add_value (Suc d) e nm (Some v) None None None False"
      using that(3) by (simp add: add_value_Suc add_value_Some)
    with noop[OF that(1,2)] show ?thesis by simp
  qed
  have xml: "add_value_from_xml (Suc d) e (elem_value nm v) ext = Inr (e\<lparr> extension := ext \<rparr>)"
    if "enum_ok e" and "map_of (name_to_value e) nm = Some v"
  proof -
    have "add_value (Suc d) (e\<lparr> extension := ext \<rparr>) nm (Some v) None None None False
            = Inr (e\<lparr> extension := ext \<rparr>)"
      using that by (intro noop) simp_all
    then show ?thesis
      by (simp add: add_value_from_xml_def elem_value_def)
  qed
  have reach: "enum_ok e" if "add_values_from_xml fuel (VkEnum_init ename bw) elems = Inr e"
    using that enum_ok_init by (rule add_values_from_xml_enum_ok)
  from noop via_alias xml reach show ?thesis by blast
qed

theorem redeclare_is_noop_witness:
  "enum_ok (set_value (VkEnum_init ''VkResult'' 32) ''VK_SUCCESS'' 0)
   \<and> map_of (name_to_value (set_value (VkEnum_init ''VkResult'' 32) ''VK_SUCCESS'' 0))
        ''VK_SUCCESS'' = Some 0
   \<and> add_values_from_xml (Suc 0) (VkEnum_init ''VkResult'' 32) [(elem_value ''VK_SUCCESS'' 0, None)]
       = Inr (set_value (VkEnum_init ''VkResult'' 32) ''VK_SUCCESS'' 0)
   \<and> add_value (Suc 0) (set_value (VkEnum_init ''VkResult'' 32) ''VK_SUCCESS'' 0)
        ''VK_SUCCESS'' (Some 0) None None None False
       = Inr (set_value (VkEnum_init ''VkResult'' 32) ''VK_SUCCESS'' 0)
   \<and> add_value (Suc 0) (set_value (VkEnum_init ''VkResult'' 32) ''VK_SUCCESS'' 0)
        ''VK_SUCCESS'' None None None (Some ''VK_SUCCESS'') False
       = Inr (set_value (VkEnum_init ''VkResult'' 32) ''VK_SUCCESS'' 0)
   \<and> add_value_from_xml (Suc 0) (set_value (VkEnum_init ''VkResult'' 32) ''VK_SUCCESS'' 0)
        (elem_value ''VK_SUCCESS'' 0) None
       = Inr (set_value (VkEnum_init ''VkResult'' 32) ''VK_SUCCESS'' 0)"
proof -
  let ?init = "VkEnum_init ''VkResult'' 32"
  let ?e = "set_value ?init ''VK_SUCCESS'' 0"
  have run: "add_values_from_xml (Suc 0) ?init [(elem_value ''VK_SUCCESS'' 0, None)] = Inr ?e"
    by (simp add: add_value_from_xml_def elem_value_def add_value_Some VkEnum_init_def
        set_value_def)
  have m: "map_of (name_to_value ?e) ''VK_SUCCESS'' = Some 0"
    by (simp add: update_conv')
  have ext: "?e\<lparr> extension := None \<rparr> = ?e"
    by (simp add: VkEnum_init_def set_value_def)
  note t = redeclare_is_noop [where e = ?e and nm = "''VK_SUCCESS''" and v = 0 and d = 0
      and a = "''VK_SUCCESS''" and err = False and ext = None and fuel = "Suc 0"
      and ename = "''VkResult''" and bw = 32 and elems = "[(elem_value ''VK_SUCCESS'' 0, None)]"]
  from t run have ok: "enum_ok ?e" by blast
  from t ok m have "add_value (Suc 0) ?e ''VK_SUCCESS'' (Some 0) None None None False = Inr ?e"
    and "add_value (Suc 0) ?e ''VK_SUCCESS'' None None None (Some ''VK_SUCCESS'') False = Inr ?e"
    and "add_value_from_xml (Suc 0) ?e (elem_value ''VK_SUCCESS'' 0) None = Inr ?e"
    unfolding ext by blast+
  with ok m run show ?thesis by blast
qed

section \<open>An alias whose base never gets a value\<close>

lemma set_update_subset: "set (AList.update k v al) \<subseteq> insert (k, v) (set al)"
  by (induction al) auto

lemma set_delete_subset: "set (AList.delete k al) \<subseteq> set al"
  by (induction al) auto

lemma add_value_Some_resolved_stays:
  "add_value d e nm (Some v) None None None False = Inr e' \<Longrightarrow>
   map_of (name_to_value e) x \<noteq> None \<Longrightarrow> map_of (name_to_value e') x \<noteq> None"
  by (erule add_value_maps_invariant[where P = "\<lambda>ntv vals. map_of ntv x \<noteq> None"])
     (auto simp: update_conv')

lemma add_value_resolved_stays:
  assumes "add_value d e nm val extnum offset alias err = Inr e'"
    and "map_of (name_to_value e) x \<noteq> None"
  shows "map_of (name_to_value e') x \<noteq> None"
  using assms(1)
proof (cases rule: add_value_cases)
  case (parked a)
  with assms(2) show ?thesis by simp
next
  case (resolved v)
  with assms(2) show ?thesis by (blast dest: add_value_Some_resolved_stays)
qed

lemma values_names_set_value:
  "snd ` set (values (set_value e n v)) \<subseteq> insert n (snd ` set (values e))"
proof -
  have "set (AList.update v n (values e)) \<subseteq> insert (v, n) (set (values e))"
    by (rule set_update_subset)
  then have "snd ` set (AList.update v n (values e)) \<subseteq> insert n (snd ` set (values e))"
    by force
  then show ?thesis
    by (auto simp: set_value_def split: option.splits)
qed

lemma absent_set_value:
  assumes "absent e nm base" and "n \<noteq> nm"
  shows "absent (set_value e n v) nm base"
  using assms values_names_set_value[of e n v]
  by (auto simp: absent_def update_conv')

lemma waits_for_set_value [simp]: "waits_for (set_value e n v) nm base = waits_for e nm base"
  by (simp add: waits_for_def)

lemma add_value_Some_absent:
  "add_value d e n (Some v) None None None False = Inr e' \<Longrightarrow>
   n \<noteq> nm \<Longrightarrow> map_of (name_to_value e') base = None \<Longrightarrow>
   absent e nm base \<and> (w \<longrightarrow> waits_for e nm base) \<Longrightarrow>
   absent e' nm base \<and> (w \<longrightarrow> waits_for e' nm base)"
proof (induction d arbitrary: e n e')
  case 0
  then show ?case by simp
next
  case (Suc d)
  let ?I = "\<lambda>x. absent x nm base \<and> (w \<longrightarrow> waits_for x nm base)"
  from Suc.prems(1) have reg: "map_of (name_to_value e') n = Some v"
    by (rule add_value_registers)
  with Suc.prems(3) have nb: "n \<noteq> base" by auto
  from Suc.prems(1) show ?case
  proof (cases rule: add_value_Some_cases)
    case (plain d')
    with Suc.prems(2,4) show ?thesis by (simp add: absent_set_value)
  next
    case (flushed d' al e2)
    then have d': "d' = d" by simp
    from flushed(2) have "(n, al) \<in> set (name_to_alias_list e)"
      by (rule map_of_SomeD)
    with Suc.prems(4) nb have nal: "nm \<notin> set al"
      by (auto simp: absent_def)
    let ?J = "\<lambda>x. map_of (name_to_value x) base = None \<longrightarrow> ?I x"
    have "?J (set_value e n v)"
      using Suc.prems(2,4) by (simp add: absent_set_value)
    with flushed(3) have "?J e2"
      unfolding d'
    proof (rule add_aliases_invariant[where I = ?J])
      fix e1 a e3
      assume a: "a \<in> set al" and j: "?J e1"
        and r: "add_value d e1 a (Some v) None None None False = Inr e3"
      show "?J e3"
      proof
        assume b3: "map_of (name_to_value e3) base = None"
        with r have "map_of (name_to_value e1) base = None"
          by (blast dest: add_value_Some_resolved_stays)
        with j have "?I e1" by simp
        moreover from a nal have "a \<noteq> nm" by auto
        ultimately show "?I e3" using Suc.IH[OF r _ b3] by blast
      qed
    qed
    moreover from Suc.prems(3) flushed(5) have "map_of (name_to_value e2) base = None"
      by simp
    ultimately have i2: "?I e2" by simp
    have "absent e' nm base"
      using i2 flushed(5) set_delete_subset[of n "name_to_alias_list e2"]
      by (auto simp: absent_def)
    moreover have "waits_for e' nm base = waits_for e2 nm base"
      using flushed(5) nb by (simp add: waits_for_def)
    ultimately show ?thesis using i2 by simp
  qed
qed

lemma add_value_absent:
  assumes "add_value d e n val extnum offset alias err = Inr e'"
    and "n = nm \<longrightarrow> alias = Some base"
    and "map_of (name_to_value e') base = None"
    and "absent e nm base \<and> (w \<longrightarrow> waits_for e nm base)"
  shows "absent e' nm base \<and> (w \<or> n = nm \<longrightarrow> waits_for e' nm base)"
proof -
  have b: "map_of (name_to_value e) base = None"
    using assms(1,3) by (blast dest: add_value_resolved_stays)
  from assms(1) show ?thesis
  proof (cases rule: add_value_cases)
    case (parked a)
    let ?l = "(case map_of (name_to_alias_list e) a of None \<Rightarrow> [] | Some l \<Rightarrow> l) @ [n]"
    have sub: "set (name_to_alias_list e') \<subseteq> insert (a, ?l) (set (name_to_alias_list e))"
      using parked(3) set_update_subset[of a ?l "name_to_alias_list e"] by simp
    have old: "nm \<in> set l \<Longrightarrow> a = base" if "map_of (name_to_alias_list e) a = Some l" for l
      using assms(4) map_of_SomeD[OF that] by (auto simp: absent_def)
    have "nm \<in> set ?l \<Longrightarrow> a = base"
      using assms(2) parked(1) old
      by (cases "map_of (name_to_alias_list e) a") auto
    with sub assms(4) parked(3) have "absent e' nm base"
      by (auto simp: absent_def)
    moreover have "waits_for e' nm base" if "w \<or> n = nm"
    proof (cases "a = base")
      case True
      with that assms(4) parked(3) show ?thesis
        by (auto simp: waits_for_def update_conv' split: option.splits)
    next
      case False
      with assms(2) parked(1) have "n \<noteq> nm" by auto
      with that assms(4) False parked(3) show ?thesis
        by (auto simp: waits_for_def update_conv')
    qed
    ultimately show ?thesis by simp
  next
    case (resolved v)
    have "n \<noteq> nm"
    proof
      assume "n = nm"
      with assms(2) resolved(2) b show False by simp
    qed
    with resolved(1) assms(3,4) show ?thesis
      using add_value_Some_absent[of d e n v e' nm base w] by simp
  qed
qed

lemma add_value_from_xml_cases:
  assumes "add_value_from_xml d e elem ext = Inr e'"
  obtains val extnum offset al err where
    "add_value d (e\<lparr> extension := ext \<rparr>) (attr_name elem) val extnum offset al err = Inr e'"
    and "attr_value elem = None \<Longrightarrow> attr_bitpos elem = None \<Longrightarrow> al = attr_alias elem"
  using assms unfolding add_value_from_xml_def Let_def
  by (auto split: option.splits if_splits sum.splits)

lemma absent_extension [simp]: "absent (e\<lparr> extension := x \<rparr>) nm base = absent e nm base"
  by (simp add: absent_def)

lemma waits_for_extension [simp]:
  "waits_for (e\<lparr> extension := x \<rparr>) nm base = waits_for e nm base"
  by (simp add: waits_for_def)

lemma add_value_from_xml_resolved_stays:
  assumes "add_value_from_xml d e elem ext = Inr e'"
    and "map_of (name_to_value e) x \<noteq> None"
  shows "map_of (name_to_value e') x \<noteq> None"
  using assms(1)
proof (cases rule: add_value_from_xml_cases)
  case (1 val extnum offset al err)
  from 1(1) show ?thesis by (rule add_value_resolved_stays) (simp add: assms(2))
qed

lemma add_values_from_xml_resolved_stays:
  "add_values_from_xml d e elems = Inr e' \<Longrightarrow> map_of (name_to_value e) x \<noteq> None \<Longrightarrow>
   map_of (name_to_value e') x \<noteq> None"
proof (induction elems arbitrary: e)
  case Nil
  then show ?case by simp
next
  case (Cons p elems)
  obtain elem ext where p: "p = (elem, ext)" by (cases p)
  from Cons.prems(1) obtain e1 where
    "add_value_from_xml d e elem ext = Inr e1" "add_values_from_xml d e1 elems = Inr e'"
    unfolding p by (auto split: sum.splits)
  with Cons.IH[of e1] Cons.prems(2) show ?case
    by (blast dest: add_value_from_xml_resolved_stays)
qed

lemma add_value_from_xml_absent:
  assumes "add_value_from_xml d e elem ext = Inr e'"
    and "attr_name elem = nm \<longrightarrow>
           attr_value elem = None \<and> attr_bitpos elem = None \<and> attr_alias elem = Some base"
    and "map_of (name_to_value e') base = None"
    and "absent e nm base \<and> (w \<longrightarrow> waits_for e nm base)"
  shows "absent e' nm base \<and> (w \<or> attr_name elem = nm \<longrightarrow> waits_for e' nm base)"
  using assms(1)
proof (cases rule: add_value_from_xml_cases)
  case (1 val extnum offset al err)
  from 1(2) assms(2) have "attr_name elem = nm \<longrightarrow> al = Some base" by simp
  with 1(1) show ?thesis
    by (rule add_value_absent) (use assms(3,4) in simp_all)
qed

lemma add_values_from_xml_absent:
  "add_values_from_xml d e elems = Inr e' \<Longrightarrow>
   \<forall>p \<in> set elems. attr_name (fst p) = nm \<longrightarrow>
      attr_value (fst p) = None \<and> attr_bitpos (fst p) = None \<and> attr_alias (fst p) = Some base \<Longrightarrow>
   map_of (name_to_value e') base = None \<Longrightarrow>
   absent e nm base \<and> (w \<longrightarrow> waits_for e nm base) \<Longrightarrow>
   absent e' nm base \<and> (w \<or> (\<exists>p \<in> set elems. attr_name (fst p) = nm) \<longrightarrow> waits_for e' nm base)"
proof (induction elems arbitrary: e w)
  case Nil
  then show ?case by simp
next
  case (Cons p elems)
  obtain elem ext where p: "p = (elem, ext)" by (cases p)
  from Cons.prems(1) obtain e1 where
    e1: "add_value_from_xml d e elem ext = Inr e1"
    and rest: "add_values_from_xml d e1 elems = Inr e'"
    unfolding p by (auto split: sum.splits)
  from rest Cons.prems(3) have b1: "map_of (name_to_value e1) base = None"
    by (blast dest: add_values_from_xml_resolved_stays)
  from Cons.prems(2) have el: "attr_name elem = nm \<longrightarrow>
      attr_value elem = None \<and> attr_bitpos elem = None \<and> attr_alias elem = Some base"
    by (simp add: p)
  have i1: "absent e1 nm base \<and> (w \<or> attr_name elem = nm \<longrightarrow> waits_for e1 nm base)"
    using e1 el b1 Cons.prems(4) by (rule add_value_from_xml_absent)
  have "absent e' nm base \<and>
      ((w \<or> attr_name elem = nm) \<or> (\<exists>p \<in> set elems. attr_name (fst p) = nm)
         \<longrightarrow> waits_for e' nm base)"
    using rest _ Cons.prems(3) i1
    by (rule Cons.IH) (use Cons.prems(2) in simp)
  then show ?case by (auto simp: p)
qed

text \<open>
  C10. A call that declares a name as an alias of a base without a value returns without
  an error and changes only the waiting list of the base, to which it appends the name.
  If the name has no value and no entry to start with (as in a new enum), is declared in
  a run of the loader only as an alias of that base, and the base has no value when the
  run returns, then the name has no value, is the canonical name of no value, and is
  still in the waiting list of the base.
\<close>

theorem unresolved_alias_is_omitted:
  "(map_of (name_to_value e) base = None \<longrightarrow>
      add_value (Suc d) e nm None None None (Some base) err
        = Inr (e\<lparr> name_to_alias_list :=
                    AList.update base
                      ((case map_of (name_to_alias_list e) base of None \<Rightarrow> [] | Some l \<Rightarrow> l) @ [nm])
                      (name_to_alias_list e) \<rparr>))
   \<and> (absent e nm base
        \<and> add_values_from_xml fuel e elems = Inr e'
        \<and> map_of (name_to_value e') base = None
        \<and> (\<forall>p \<in> set elems. attr_name (fst p) = nm \<longrightarrow>
              attr_value (fst p) = None \<and> attr_bitpos (fst p) = None
              \<and> attr_alias (fst p) = Some base)
        \<and> (\<exists>p \<in> set elems. attr_name (fst p) = nm)
      \<longrightarrow> map_of (name_to_value e') nm = None
          \<and> nm \<notin> snd ` set (values e')
          \<and> waits_for e' nm base)
   \<and> absent (VkEnum_init ename bw) nm base"
proof -
  have one: "add_value (Suc d) e nm None None None (Some base) err
        = Inr (e\<lparr> name_to_alias_list :=
                    AList.update base
                      ((case map_of (name_to_alias_list e) base of None \<Rightarrow> [] | Some l \<Rightarrow> l) @ [nm])
                      (name_to_alias_list e) \<rparr>)"
    if "map_of (name_to_value e) base = None"
    using that by (simp add: add_value_Suc)
  have run: "map_of (name_to_value e') nm = None \<and> nm \<notin> snd ` set (values e')
          \<and> waits_for e' nm base"
    if "absent e nm base" and "add_values_from_xml fuel e elems = Inr e'"
      and "map_of (name_to_value e') base = None"
      and "\<forall>p \<in> set elems. attr_name (fst p) = nm \<longrightarrow>
              attr_value (fst p) = None \<and> attr_bitpos (fst p) = None
              \<and> attr_alias (fst p) = Some base"
      and "\<exists>p \<in> set elems. attr_name (fst p) = nm"
  proof -
    have "absent e' nm base \<and>
        (False \<or> (\<exists>p \<in> set elems. attr_name (fst p) = nm) \<longrightarrow> waits_for e' nm base)"
      using that(2,4,3) by (rule add_values_from_xml_absent) (simp add: that(1))
    with that(5) show ?thesis by (simp add: absent_def)
  qed
  have init: "absent (VkEnum_init ename bw) nm base"
    by (simp add: absent_def VkEnum_init_def)
  have A: "map_of (name_to_value e) base = None \<longrightarrow>
      add_value (Suc d) e nm None None None (Some base) err
        = Inr (e\<lparr> name_to_alias_list :=
                    AList.update base
                      ((case map_of (name_to_alias_list e) base of None \<Rightarrow> [] | Some l \<Rightarrow> l) @ [nm])
                      (name_to_alias_list e) \<rparr>)"
    using one by (rule impI)
  have B: "absent e nm base
        \<and> add_values_from_xml fuel e elems = Inr e'
        \<and> map_of (name_to_value e') base = None
        \<and> (\<forall>p \<in> set elems. attr_name (fst p) = nm \<longrightarrow>
              attr_value (fst p) = None \<and> attr_bitpos (fst p) = None
              \<and> attr_alias (fst p) = Some base)
        \<and> (\<exists>p \<in> set elems. attr_name (fst p) = nm)
      \<longrightarrow> map_of (name_to_value e') nm = None
          \<and> nm \<notin> snd ` set (values e')
          \<and> waits_for e' nm base"
  proof
    assume h: "absent e nm base
        \<and> add_values_from_xml fuel e elems = Inr e'
        \<and> map_of (name_to_value e') base = None
        \<and> (\<forall>p \<in> set elems. attr_name (fst p) = nm \<longrightarrow>
              attr_value (fst p) = None \<and> attr_bitpos (fst p) = None
              \<and> attr_alias (fst p) = Some base)
        \<and> (\<exists>p \<in> set elems. attr_name (fst p) = nm)"
    from h have h1: "absent e nm base" by (rule conjunct1)
    from h have h2: "add_values_from_xml fuel e elems = Inr e'" by (elim conjE)
    from h have h3: "map_of (name_to_value e') base = None" by (elim conjE)
    from h have h4: "\<forall>p \<in> set elems. attr_name (fst p) = nm \<longrightarrow>
              attr_value (fst p) = None \<and> attr_bitpos (fst p) = None
              \<and> attr_alias (fst p) = Some base" by (elim conjE)
    from h have h5: "\<exists>p \<in> set elems. attr_name (fst p) = nm" by (elim conjE)
    from h1 h2 h3 h4 h5 show "map_of (name_to_value e') nm = None
          \<and> nm \<notin> snd ` set (values e')
          \<and> waits_for e' nm base" by (rule run)
  qed
  show ?thesis by (rule conjI[OF A conjI[OF B init]])
qed

theorem unresolved_alias_is_omitted_witness:
  "add_values_from_xml (Suc 0) (VkEnum_init ''VkFoo'' 32)
      [(elem_alias ''A'' ''B'', None), (elem_value ''C'' 1, None)]
     = Inr \<lparr> name = ''VkFoo'', max_enum_name = compute_max_enum_name ''VkFoo'', bitwidth = 32,
             extension = None, values = [(1, ''C'')], name_to_value = [(''C'', 1)],
             guard = None, name_to_alias_list = [(''B'', [''A''])] \<rparr>
   \<and> add_value (Suc 0) (VkEnum_init ''VkFoo'' 32) ''A'' None None None (Some ''B'') False
     = Inr \<lparr> name = ''VkFoo'', max_enum_name = compute_max_enum_name ''VkFoo'', bitwidth = 32,
             extension = None, values = [], name_to_value = [],
             guard = None, name_to_alias_list = [(''B'', [''A''])] \<rparr>
   \<and> waits_for \<lparr> name = ''VkFoo'', max_enum_name = compute_max_enum_name ''VkFoo'', bitwidth = 32,
             extension = None, values = [(1, ''C'')], name_to_value = [(''C'', 1)],
             guard = None, name_to_alias_list = [(''B'', [''A''])] \<rparr> ''A'' ''B''"
proof -
  let ?init = "VkEnum_init ''VkFoo'' 32"
  let ?elems = "[(elem_alias ''A'' ''B'', None), (elem_value ''C'' 1, None)]"
  let ?r = "\<lparr> name = ''VkFoo'', max_enum_name = compute_max_enum_name ''VkFoo'', bitwidth = 32,
             extension = None, values = [(1, ''C'')], name_to_value = [(''C'', 1)],
             guard = None, name_to_alias_list = [(''B'', [''A''])] \<rparr>"
  note t = unresolved_alias_is_omitted [where e = ?init and base = "''B''" and nm = "''A''"
      and d = 0 and err = False and fuel = "Suc 0" and elems = ?elems and e' = ?r
      and ename = "''VkFoo''" and bw = 32]
  have run: "add_values_from_xml (Suc 0) ?init ?elems = Inr ?r"
    by (simp add: add_value_from_xml_def elem_alias_def elem_value_def add_value_Suc
        VkEnum_init_def set_value_def)
  have b: "map_of (name_to_value ?init) ''B'' = None"
    by (simp add: VkEnum_init_def)
  have b': "map_of (name_to_value ?r) ''B'' = None" by simp
  have only: "\<forall>p \<in> set ?elems. attr_name (fst p) = ''A'' \<longrightarrow>
              attr_value (fst p) = None \<and> attr_bitpos (fst p) = None
              \<and> attr_alias (fst p) = Some ''B''"
    by (simp add: elem_alias_def elem_value_def)
  have ex: "\<exists>p \<in> set ?elems. attr_name (fst p) = ''A''"
    by (simp add: elem_alias_def)
  from t have a: "absent ?init ''A'' ''B''" by blast
  from t a run b' only ex have w: "waits_for ?r ''A'' ''B''" by blast
  from t b have "add_value (Suc 0) ?init ''A'' None None None (Some ''B'') False
     = Inr (?init\<lparr> name_to_alias_list :=
                    AList.update ''B''
                      ((case map_of (name_to_alias_list ?init) ''B'' of None \<Rightarrow> [] | Some l \<Rightarrow> l) @ [''A''])
                      (name_to_alias_list ?init) \<rparr>)"
    by blast
  then have one: "add_value (Suc 0) ?init ''A'' None None None (Some ''B'') False
     = Inr \<lparr> name = ''VkFoo'', max_enum_name = compute_max_enum_name ''VkFoo'', bitwidth = 32,
             extension = None, values = [], name_to_value = [],
             guard = None, name_to_alias_list = [(''B'', [''A''])] \<rparr>"
    by (simp add: VkEnum_init_def)
  from run one w show ?thesis by blast
qed

section \<open>The canonical name is the shortest, and the earliest of the shortest\<close>

lemma update_fresh: "k \<notin> fst ` set al \<Longrightarrow> AList.update k v al = al @ [(k, v)]"
  by (induction al) auto

lemma takeWhile_until_last:
  "n \<notin> set ns \<Longrightarrow> takeWhile (\<lambda>x. x \<noteq> n) (ns @ [n]) = ns"
  by (induction ns) auto

lemma canonical_for_single: "canonical_for [n] n"
  by (simp add: canonical_for_def)

lemma canonical_for_append:
  assumes "canonical_for ns c" and "n \<notin> set ns"
  shows "canonical_for (ns @ [n]) (if length c > length n then n else c)"
proof (cases "length c > length n")
  case True
  have "takeWhile (\<lambda>x. x \<noteq> n) (ns @ [n]) = ns"
    using assms(2) by (rule takeWhile_until_last)
  with True assms(1) show ?thesis
    by (auto simp: canonical_for_def)
next
  case False
  from assms(1) have "c \<in> set ns" by (simp add: canonical_for_def)
  then have "takeWhile (\<lambda>x. x \<noteq> c) (ns @ [n]) = takeWhile (\<lambda>x. x \<noteq> c) ns"
    by simp
  with False assms(1) show ?thesis
    by (auto simp: canonical_for_def)
qed

lemma names_of_set_value_fresh:
  assumes "map_of (name_to_value e) n = None"
  shows "names_of (set_value e n v) u = (if u = v then names_of e u @ [n] else names_of e u)"
proof -
  from assms have "n \<notin> fst ` set (name_to_value e)"
    by (simp add: map_of_eq_None_iff)
  then have "name_to_value (set_value e n v) = name_to_value e @ [(n, v)]"
    by (simp add: update_fresh)
  then show ?thesis by (simp add: names_of_def)
qed

lemma in_names_of: "x \<in> set (names_of e v) \<longleftrightarrow> (x, v) \<in> set (name_to_value e)"
  by (force simp: names_of_def)

lemma set_names_of:
  "distinct (map fst (name_to_value e)) \<Longrightarrow>
   set (names_of e v) = {n. map_of (name_to_value e) n = Some v}"
  by (auto simp: in_names_of)

lemma canonicalD:
  assumes "canonical e" and "v \<in> fst ` set (values e) \<union> snd ` set (name_to_value e)"
  obtains c where "map_of (values e) v = Some c" and "canonical_for (names_of e v) c"
proof -
  from assms have "case map_of (values e) v of None \<Rightarrow> False
      | Some c \<Rightarrow> canonical_for (names_of e v) c"
    unfolding canonical_def by blast
  then show ?thesis
    by (cases "map_of (values e) v") (auto intro: that)
qed

lemma canonical_set_value_same:
  assumes "canonical e" and "map_of (name_to_value e) n = Some v"
  shows "set_value e n v = e"
proof -
  from assms(2) have "(n, v) \<in> set (name_to_value e)" by (rule map_of_SomeD)
  then have v: "v \<in> snd ` set (name_to_value e)" by force
  then have "v \<in> fst ` set (values e) \<union> snd ` set (name_to_value e)" by simp
  with assms(1) obtain c where c: "map_of (values e) v = Some c"
    and cf: "canonical_for (names_of e v) c"
    by (rule canonicalD)
  from assms have "n \<in> set (names_of e v)"
    by (simp add: set_names_of canonical_def)
  with cf have "length c \<le> length n" by (simp add: canonical_for_def)
  with c assms(2) show ?thesis by (simp add: set_value_def update_triv)
qed

lemma canonical_set_value_fresh:
  assumes "canonical e" and "map_of (name_to_value e) n = None"
  shows "canonical (set_value e n v)"
proof -
  let ?e' = "set_value e n v"
  from assms(1) have d: "distinct (map fst (name_to_value e))" by (simp add: canonical_def)
  from assms(2) have fresh: "n \<notin> fst ` set (name_to_value e)"
    by (simp add: map_of_eq_None_iff)
  have d': "distinct (map fst (name_to_value ?e'))"
    using d by (simp add: distinct_update)
  have nn: "n \<notin> set (names_of e v)"
    using fresh by (force simp: in_names_of)
  have keys: "fst ` set (values ?e') \<union> snd ` set (name_to_value ?e')
      = insert v (fst ` set (values e) \<union> snd ` set (name_to_value e))"
    using fresh by (auto simp: keys_set_value update_fresh)
  have new: "case map_of (values ?e') v of None \<Rightarrow> False
      | Some c \<Rightarrow> canonical_for (names_of ?e' v) c"
  proof (cases "map_of (values e) v")
    case None
    then have "v \<notin> fst ` set (values e)" by (simp add: map_of_eq_None_iff)
    moreover have "v \<notin> snd ` set (name_to_value e)"
    proof
      assume "v \<in> snd ` set (name_to_value e)"
      then have "v \<in> fst ` set (values e) \<union> snd ` set (name_to_value e)" by simp
      with assms(1) None show False by (auto elim: canonicalD)
    qed
    then have "names_of e v = []"
      by (auto simp: names_of_def filter_empty_conv)
    ultimately show ?thesis
      using None assms(2)
      by (simp add: values_set_value names_of_set_value_fresh canonical_for_single)
  next
    case (Some c)
    then have "v \<in> fst ` set (values e)"
      by (metis map_of_eq_None_iff option.distinct(1))
    then have "v \<in> fst ` set (values e) \<union> snd ` set (name_to_value e)" by simp
    with assms(1) Some have "canonical_for (names_of e v) c"
      by (auto elim: canonicalD)
    from canonical_for_append[OF this nn] Some assms(2) show ?thesis
      by (simp add: values_set_value names_of_set_value_fresh)
  qed
  have old: "case map_of (values ?e') u of None \<Rightarrow> False
      | Some c \<Rightarrow> canonical_for (names_of ?e' u) c"
    if "u \<in> fst ` set (values e) \<union> snd ` set (name_to_value e)" and "u \<noteq> v" for u
  proof -
    from assms(1) that(1) obtain c where "map_of (values e) u = Some c"
      and "canonical_for (names_of e u) c"
      by (rule canonicalD)
    with that(2) assms(2) show ?thesis
      by (simp add: values_set_value names_of_set_value_fresh)
  qed
  show ?thesis
    unfolding canonical_def keys using d' new old by blast
qed

lemma canonical_set_value:
  assumes "canonical e"
    and "map_of (name_to_value e) n = None \<or> map_of (name_to_value e) n = Some v"
  shows "canonical (set_value e n v)"
  using assms canonical_set_value_same canonical_set_value_fresh by metis

lemma canonical_pending [simp]:
  "canonical (e\<lparr> name_to_alias_list := l \<rparr>) = canonical e"
  by (simp add: canonical_def names_of_def cong: option.case_cong)

lemma canonical_extension [simp]: "canonical (e\<lparr> extension := x \<rparr>) = canonical e"
  by (simp add: canonical_def names_of_def cong: option.case_cong)

text \<open>A call that registers \<open>v\<close> gives no name another value than \<open>v\<close>.\<close>

lemma add_value_Some_other_values:
  assumes "add_value d x a (Some v) None None None False = Inr x'"
    and "map_of (name_to_value x') m = Some u" and "u \<noteq> v"
  shows "map_of (name_to_value x) m = Some u"
proof -
  have "map_of (name_to_value x') m = Some u \<longrightarrow> map_of (name_to_value x) m = Some u"
    using assms(1)
    by (rule add_value_maps_invariant
          [where P = "\<lambda>ntv vals. map_of ntv m = Some u \<longrightarrow> map_of (name_to_value x) m = Some u"])
       (use assms(3) in \<open>auto simp: update_conv' split: if_splits\<close>)
  with assms(2) show ?thesis by simp
qed

lemma keeps_values_iff:
  "distinct (map fst (name_to_value e)) \<Longrightarrow>
   keeps_values e e' \<longleftrightarrow>
     (\<forall>m u. map_of (name_to_value e) m = Some u \<longrightarrow> map_of (name_to_value e') m = Some u)"
  by (auto simp: keeps_values_def)

lemma add_value_Some_canonical:
  "add_value d e n (Some v) None None None False = Inr e' \<Longrightarrow>
   canonical e \<Longrightarrow> keeps_values e e' \<Longrightarrow> canonical e'"
proof (induction d arbitrary: e n e')
  case 0
  then show ?case by simp
next
  case (Suc d)
  from Suc.prems(2) have dist: "distinct (map fst (name_to_value e))"
    by (simp add: canonical_def)
  from Suc.prems(1) have "map_of (name_to_value e') n = Some v"
    by (rule add_value_registers)
  with Suc.prems(3) dist
  have n: "map_of (name_to_value e) n = None \<or> map_of (name_to_value e) n = Some v"
    by (cases "map_of (name_to_value e) n") (auto simp: keeps_values_iff)
  with Suc.prems(2) have c1: "canonical (set_value e n v)"
    by (rule canonical_set_value)
  from Suc.prems(1) show ?case
  proof (cases rule: add_value_Some_cases)
    case (plain d')
    with c1 show ?thesis by simp
  next
    case (flushed d' al e2)
    then have d': "d' = d" by simp
    let ?R = "\<lambda>x. \<forall>m u. u \<noteq> v \<longrightarrow> map_of (name_to_value x) m = Some u
                \<longrightarrow> map_of (name_to_value e) m = Some u"
    let ?K = "\<lambda>x. \<forall>m u. u \<noteq> v \<longrightarrow> map_of (name_to_value e) m = Some u
                \<longrightarrow> map_of (name_to_value x) m = Some u"
    let ?J = "\<lambda>x. ?R x \<and> (?K x \<longrightarrow> canonical x)"
    have "?J (set_value e n v)"
      using c1 by (auto simp: update_conv' split: if_splits)
    with flushed(3) have "?J e2"
      unfolding d'
    proof (rule add_aliases_invariant[where I = ?J])
      fix x a x'
      assume j: "?J x" and r: "add_value d x a (Some v) None None None False = Inr x'"
      have earlier: "map_of (name_to_value x) m = Some u"
        if "map_of (name_to_value x') m = Some u" and "u \<noteq> v" for m u
        using r that by (rule add_value_Some_other_values)
      have R': "?R x'" using j earlier by blast
      have "canonical x'" if k': "?K x'"
      proof -
        have k: "?K x" using k' earlier by blast
        with j have cx: "canonical x" by blast
        then have dx: "distinct (map fst (name_to_value x))" by (simp add: canonical_def)
        have "map_of (name_to_value x') m = Some u"
          if mu: "map_of (name_to_value x) m = Some u" for m u
        proof (cases "u = v")
          case True
          with r mu show ?thesis by (simp add: add_value_keeps_value)
        next
          case False
          with j mu have "map_of (name_to_value e) m = Some u" by blast
          with k' False show ?thesis by blast
        qed
        then have "keeps_values x x'" using dx by (simp add: keeps_values_iff)
        with r cx show ?thesis by (rule Suc.IH)
      qed
      with R' show "?J x'" by blast
    qed
    moreover have "?K e2"
      using Suc.prems(3) dist flushed(5) by (simp add: keeps_values_iff)
    ultimately have "canonical e2" by blast
    with flushed(5) show ?thesis by simp
  qed
qed

lemma canonical_init: "canonical (VkEnum_init ename bw)"
  by (simp add: canonical_def VkEnum_init_def)

lemma add_value_canonical:
  assumes "add_value d e n val extnum offset alias err = Inr e'"
    and "canonical e" and "keeps_values e e'"
  shows "canonical e'"
  using assms(1)
proof (cases rule: add_value_cases)
  case (parked a)
  with assms(2) show ?thesis by simp
next
  case (resolved v)
  from resolved(1) assms(2,3) show ?thesis by (rule add_value_Some_canonical)
qed

lemma keeps_values_extension [simp]:
  "keeps_values (e\<lparr> extension := x \<rparr>) e' = keeps_values e e'"
  by (simp add: keeps_values_def)

lemma add_value_from_xml_canonical:
  assumes "add_value_from_xml d e elem ext = Inr e'"
    and "canonical e" and "keeps_values e e'"
  shows "canonical e'"
  using assms(1)
proof (cases rule: add_value_from_xml_cases)
  case (1 val extnum offset al err)
  from 1(1) show ?thesis
    by (rule add_value_canonical) (use assms(2,3) in simp_all)
qed

lemma canonical_shortest:
  assumes "canonical e" and "map_of (name_to_value e) m = Some v"
  shows "\<exists>c. map_of (values e) v = Some c \<and> map_of (name_to_value e) c = Some v
           \<and> length c \<le> length m
           \<and> (length c = length m \<longrightarrow> m \<notin> set (takeWhile (\<lambda>x. x \<noteq> c) (names_of e v)))"
proof -
  from assms(1) have d: "distinct (map fst (name_to_value e))" by (simp add: canonical_def)
  from assms(2) have "(m, v) \<in> set (name_to_value e)" by (rule map_of_SomeD)
  then have "v \<in> fst ` set (values e) \<union> snd ` set (name_to_value e)" by force
  with assms(1) obtain c where c: "map_of (values e) v = Some c"
    and cf: "canonical_for (names_of e v) c"
    by (rule canonicalD)
  from assms(2) d have m: "m \<in> set (names_of e v)" by (simp add: set_names_of)
  from cf d have "map_of (name_to_value e) c = Some v"
    by (simp add: canonical_for_def set_names_of)
  moreover from cf m have "length c \<le> length m" by (simp add: canonical_for_def)
  moreover from cf have "length c = length m \<longrightarrow>
      m \<notin> set (takeWhile (\<lambda>x. x \<noteq> c) (names_of e v))"
    by (auto simp: canonical_for_def)
  ultimately show ?thesis using c by blast
qed

lemma add_value_records:
  assumes "add_value d e nm (Some v) None None None False = Inr e'"
  shows "\<exists>c. map_of (values e') v = Some c \<and> length c \<le> length nm"
proof -
  let ?P = "\<lambda>vals. \<exists>c. map_of vals v = Some c \<and> length c \<le> length nm"
  have first: "?P (values (set_value e nm v))"
    by (cases "map_of (values e) v") (auto simp: values_set_value)
  have keep: "?P (values (set_value x n v))" if "?P (values x)" for x n
    using that by (auto simp: values_set_value)
  from assms show ?thesis
  proof (cases rule: add_value_Some_cases)
    case (plain d')
    with first show ?thesis by simp
  next
    case (flushed d' al e2)
    from flushed(3) first have "?P (values e2)"
    proof (rule add_aliases_invariant[where I = "\<lambda>x. ?P (values x)"])
      fix e1 a e3
      assume "?P (values e1)"
        and "add_value d' e1 a (Some v) None None None False = Inr e3"
      then show "?P (values e3)"
        using add_value_maps_invariant[where P = "\<lambda>ntv vals. ?P vals" and e = e1 and e' = e3]
          keep by blast
    qed
    with flushed(5) show ?thesis by simp
  qed
qed

text \<open>
  C1, as the specification states it, fails when a name is declared again with another
  value: the entry that the name left in \<open>values\<close> under its first value stays. After
  \<open>A = 1, BBB = 1, A = 2, CCCC = 1\<close> the names that resolve to 1 are \<open>BBB\<close> and \<open>CCCC\<close>,
  and the canonical name recorded for 1 is \<open>A\<close>, which resolves to 2.
\<close>

theorem canonical_name_redeclared_counterexample:
  "add_values_from_xml (Suc 0) (VkEnum_init ''VkFoo'' 32)
      [(elem_value ''A'' 1, None), (elem_value ''BBB'' 1, None), (elem_value ''A'' 2, None),
       (elem_value ''CCCC'' 1, None)]
     = Inr \<lparr> name = ''VkFoo'', max_enum_name = compute_max_enum_name ''VkFoo'', bitwidth = 32,
             extension = None, values = [(1, ''A''), (2, ''A'')],
             name_to_value = [(''A'', 2), (''BBB'', 1), (''CCCC'', 1)],
             guard = None, name_to_alias_list = [] \<rparr>
   \<and> names_of \<lparr> name = ''VkFoo'', max_enum_name = compute_max_enum_name ''VkFoo'', bitwidth = 32,
             extension = None, values = [(1, ''A''), (2, ''A'')],
             name_to_value = [(''A'', 2), (''BBB'', 1), (''CCCC'', 1)],
             guard = None, name_to_alias_list = [] \<rparr> 1 = [''BBB'', ''CCCC'']
   \<and> \<not> canonical \<lparr> name = ''VkFoo'', max_enum_name = compute_max_enum_name ''VkFoo'',
             bitwidth = 32, extension = None, values = [(1, ''A''), (2, ''A'')],
             name_to_value = [(''A'', 2), (''BBB'', 1), (''CCCC'', 1)],
             guard = None, name_to_alias_list = [] \<rparr>"
proof -
  let ?r = "\<lparr> name = ''VkFoo'', max_enum_name = compute_max_enum_name ''VkFoo'', bitwidth = 32,
             extension = None, values = [(1, ''A''), (2, ''A'')],
             name_to_value = [(''A'', 2), (''BBB'', 1), (''CCCC'', 1)],
             guard = None, name_to_alias_list = [] \<rparr>"
  have run: "add_values_from_xml (Suc 0) (VkEnum_init ''VkFoo'' 32)
      [(elem_value ''A'' 1, None), (elem_value ''BBB'' 1, None), (elem_value ''A'' 2, None),
       (elem_value ''CCCC'' 1, None)] = Inr ?r"
    by (simp add: add_value_from_xml_def elem_value_def add_value_Some VkEnum_init_def
        set_value_def)
  have names: "names_of ?r 1 = [''BBB'', ''CCCC'']"
    by (simp add: names_of_def)
  have "\<not> canonical_for (names_of ?r 1) ''A''"
    unfolding names by (simp add: canonical_for_def)
  moreover have "map_of (values ?r) 1 = Some ''A''" by simp
  moreover have "(1::int) \<in> fst ` set (values ?r) \<union> snd ` set (name_to_value ?r)" by simp
  ultimately have "\<not> canonical ?r"
    by (metis canonicalD option.inject)
  with run names show ?thesis by (intro conjI)
qed

text \<open>
  C1, amended. In a registry in which no name that has a value is declared again with
  another value (\<open>keeps_values\<close>), the canonical name of every value is the shortest of
  the names that resolve to it, and among the shortest the one registered first
  (\<open>canonical\<close>): this holds of a new enum and is kept by every returning call of
  \<open>add_value\<close> and \<open>add_value_from_xml\<close>. The selection is made at every pair that is
  added: a returning call leaves the name with the value and the value with a canonical
  name that is not longer than the name, and a call for a name nobody waits for returns
  with the name if the value had no canonical name or a longer one, with the old
  canonical name otherwise, and changes the canonical name of no other value.
\<close>

theorem canonical_name_is_shortest_first:
  "canonical (VkEnum_init ename bw)
   \<and> (canonical e \<and> add_value d e nm val extnum offset al err = Inr e' \<and> keeps_values e e'
        \<longrightarrow> canonical e')
   \<and> (canonical e \<and> add_value_from_xml d e elem ext = Inr e' \<and> keeps_values e e'
        \<longrightarrow> canonical e')
   \<and> (add_value d e nm (Some v) None None None False = Inr e'
        \<longrightarrow> map_of (name_to_value e') nm = Some v
            \<and> (\<exists>c. map_of (values e') v = Some c \<and> length c \<le> length nm))
   \<and> (map_of (name_to_alias_list e) nm = None
        \<longrightarrow> (\<exists>e1. add_value (Suc d) e nm (Some v) None None None False = Inr e1
              \<and> map_of (name_to_value e1) nm = Some v
              \<and> map_of (values e1) v =
                  Some (case map_of (values e) v of
                          None \<Rightarrow> nm
                        | Some old \<Rightarrow> if length nm < length old then nm else old)
              \<and> (\<forall>u. u \<noteq> v \<longrightarrow> map_of (values e1) u = map_of (values e) u)))
   \<and> (canonical e \<and> map_of (name_to_value e) m = Some v
        \<longrightarrow> (\<exists>c. map_of (values e) v = Some c \<and> map_of (name_to_value e) c = Some v
               \<and> length c \<le> length m
               \<and> (length c = length m
                    \<longrightarrow> m \<notin> set (takeWhile (\<lambda>x. x \<noteq> c) (names_of e v)))))"
proof -
  have A: "canonical e \<and> add_value d e nm val extnum offset al err = Inr e'
      \<and> keeps_values e e' \<longrightarrow> canonical e'"
    using add_value_canonical by blast
  have B: "canonical e \<and> add_value_from_xml d e elem ext = Inr e' \<and> keeps_values e e'
        \<longrightarrow> canonical e'"
    using add_value_from_xml_canonical by blast
  have R: "add_value d e nm (Some v) None None None False = Inr e'
        \<longrightarrow> map_of (name_to_value e') nm = Some v
            \<and> (\<exists>c. map_of (values e') v = Some c \<and> length c \<le> length nm)"
    using add_value_registers[of d e nm v e'] add_value_records[of d e nm v e'] by blast
  have S: "map_of (name_to_alias_list e) nm = None
        \<longrightarrow> (\<exists>e1. add_value (Suc d) e nm (Some v) None None None False = Inr e1
              \<and> map_of (name_to_value e1) nm = Some v
              \<and> map_of (values e1) v =
                  Some (case map_of (values e) v of
                          None \<Rightarrow> nm
                        | Some old \<Rightarrow> if length nm < length old then nm else old)
              \<and> (\<forall>u. u \<noteq> v \<longrightarrow> map_of (values e1) u = map_of (values e) u))"
  proof
    assume "map_of (name_to_alias_list e) nm = None"
    then have "add_value (Suc d) e nm (Some v) None None None False = Inr (set_value e nm v)"
      by (simp add: add_value_Some)
    moreover have "map_of (name_to_value (set_value e nm v)) nm = Some v"
      by (simp add: update_conv')
    moreover have "map_of (values (set_value e nm v)) v =
                  Some (case map_of (values e) v of
                          None \<Rightarrow> nm
                        | Some old \<Rightarrow> if length nm < length old then nm else old)"
      by (simp add: values_set_value)
    moreover have "\<forall>u. u \<noteq> v \<longrightarrow> map_of (values (set_value e nm v)) u = map_of (values e) u"
      by (simp add: values_set_value)
    ultimately show "\<exists>e1. add_value (Suc d) e nm (Some v) None None None False = Inr e1
              \<and> map_of (name_to_value e1) nm = Some v
              \<and> map_of (values e1) v =
                  Some (case map_of (values e) v of
                          None \<Rightarrow> nm
                        | Some old \<Rightarrow> if length nm < length old then nm else old)
              \<and> (\<forall>u. u \<noteq> v \<longrightarrow> map_of (values e1) u = map_of (values e) u)"
      by blast
  qed
  have C: "canonical e \<and> map_of (name_to_value e) m = Some v
        \<longrightarrow> (\<exists>c. map_of (values e) v = Some c \<and> map_of (name_to_value e) c = Some v
               \<and> length c \<le> length m
               \<and> (length c = length m
                    \<longrightarrow> m \<notin> set (takeWhile (\<lambda>x. x \<noteq> c) (names_of e v))))"
    using canonical_shortest[of e m v] by blast
  show ?thesis
    by (rule conjI[OF canonical_init conjI[OF A conjI[OF B conjI[OF R conjI[OF S C]]]]])
qed

theorem canonical_name_is_shortest_first_witness:
  "add_value (Suc 0) (VkEnum_init ''VkResult'' 32) ''VK_LONG_NAME'' (Some 1) None None None False
     = Inr (set_value (VkEnum_init ''VkResult'' 32) ''VK_LONG_NAME'' 1)
   \<and> add_value (Suc 0) (set_value (VkEnum_init ''VkResult'' 32) ''VK_LONG_NAME'' 1)
       ''VK_B'' (Some 1) None None None False
     = Inr (set_value (set_value (VkEnum_init ''VkResult'' 32) ''VK_LONG_NAME'' 1) ''VK_B'' 1)
   \<and> add_value_from_xml (Suc 0) (set_value (VkEnum_init ''VkResult'' 32) ''VK_LONG_NAME'' 1)
       (elem_value ''VK_B'' 1) None
     = Inr (set_value (set_value (VkEnum_init ''VkResult'' 32) ''VK_LONG_NAME'' 1) ''VK_B'' 1)
   \<and> keeps_values (set_value (VkEnum_init ''VkResult'' 32) ''VK_LONG_NAME'' 1)
        (set_value (set_value (VkEnum_init ''VkResult'' 32) ''VK_LONG_NAME'' 1) ''VK_B'' 1)
   \<and> map_of (name_to_alias_list (set_value (VkEnum_init ''VkResult'' 32) ''VK_LONG_NAME'' 1))
        ''VK_B'' = None
   \<and> canonical (set_value (set_value (VkEnum_init ''VkResult'' 32) ''VK_LONG_NAME'' 1) ''VK_B'' 1)
   \<and> map_of (values (set_value (set_value (VkEnum_init ''VkResult'' 32) ''VK_LONG_NAME'' 1)
        ''VK_B'' 1)) 1 = Some ''VK_B''
   \<and> map_of (name_to_value (set_value (set_value (VkEnum_init ''VkResult'' 32)
        ''VK_LONG_NAME'' 1) ''VK_B'' 1)) ''VK_B'' = Some 1
   \<and> map_of (name_to_value (set_value (set_value (VkEnum_init ''VkResult'' 32)
        ''VK_LONG_NAME'' 1) ''VK_B'' 1)) ''VK_LONG_NAME'' = Some 1"
proof -
  let ?init = "VkEnum_init ''VkResult'' 32"
  let ?a = "set_value ?init ''VK_LONG_NAME'' 1"
  let ?b = "set_value ?a ''VK_B'' 1"
  have r1: "add_value (Suc 0) ?init ''VK_LONG_NAME'' (Some 1) None None None False = Inr ?a"
    by (simp add: add_value_Some VkEnum_init_def)
  have r2: "add_value (Suc 0) ?a ''VK_B'' (Some 1) None None None False = Inr ?b"
    by (simp add: add_value_Some VkEnum_init_def)
  have ext: "?a\<lparr> extension := None \<rparr> = ?a"
    by (simp add: VkEnum_init_def set_value_def)
  have r3: "add_value_from_xml (Suc 0) ?a (elem_value ''VK_B'' 1) None = Inr ?b"
    by (simp add: add_value_from_xml_def elem_value_def ext r2)
  have k1: "keeps_values ?init ?a"
    by (simp add: keeps_values_def VkEnum_init_def)
  have k2: "keeps_values ?a ?b"
    by (simp add: keeps_values_def VkEnum_init_def)
  have p: "map_of (name_to_alias_list ?a) ''VK_B'' = None"
    by (simp add: VkEnum_init_def)
  note t1 = canonical_name_is_shortest_first
    [where ename = "''VkResult''" and bw = 32 and e = ?init and d = "Suc 0"
       and nm = "''VK_LONG_NAME''" and val = "Some 1" and extnum = None and offset = None
       and al = None and err = False and e' = ?a]
  note t2 = canonical_name_is_shortest_first
    [where e = ?a and d = "Suc 0"
       and nm = "''VK_B''" and val = "Some 1" and extnum = None and offset = None
       and al = None and err = False and e' = ?b and elem = "elem_value ''VK_B'' 1"
       and ext = None and v = 1]
  note t3 = canonical_name_is_shortest_first
    [where e = ?a and d = 0 and nm = "''VK_B''" and v = 1]
  note t4 = canonical_name_is_shortest_first
    [where e = ?b and m = "''VK_LONG_NAME''" and v = 1]
  have c0: "canonical ?init" by (rule t1[THEN conjunct1])
  have c1: "canonical ?a"
    by (rule t1[THEN conjunct2, THEN conjunct1, THEN mp]) (intro conjI c0 r1 k1)
  have c2: "canonical ?b"
    by (rule t2[THEN conjunct2, THEN conjunct1, THEN mp]) (intro conjI c1 r2 k2)
  have c2': "canonical ?b"
    by (rule t2[THEN conjunct2, THEN conjunct2, THEN conjunct1, THEN mp])
      (intro conjI c1 r3 k2)
  have rec: "map_of (name_to_value ?b) ''VK_B'' = Some 1
      \<and> (\<exists>c. map_of (values ?b) 1 = Some c \<and> length c \<le> length ''VK_B'')"
    by (rule t2[THEN conjunct2, THEN conjunct2, THEN conjunct2, THEN conjunct1, THEN mp])
      (rule r2)
  have sel: "\<exists>e1. add_value (Suc 0) ?a ''VK_B'' (Some 1) None None None False = Inr e1
      \<and> map_of (name_to_value e1) ''VK_B'' = Some 1
      \<and> map_of (values e1) 1 =
          Some (case map_of (values ?a) 1 of
                  None \<Rightarrow> ''VK_B''
                | Some old \<Rightarrow> if length ''VK_B'' < length old then ''VK_B'' else old)
      \<and> (\<forall>u. u \<noteq> 1 \<longrightarrow> map_of (values e1) u = map_of (values ?a) u)"
    by (rule t3[THEN conjunct2, THEN conjunct2, THEN conjunct2, THEN conjunct2,
          THEN conjunct1, THEN mp]) (rule p)
  then obtain e1 where e1: "add_value (Suc 0) ?a ''VK_B'' (Some 1) None None None False = Inr e1"
    and v1: "map_of (values e1) 1 =
          Some (case map_of (values ?a) 1 of
                  None \<Rightarrow> ''VK_B''
                | Some old \<Rightarrow> if length ''VK_B'' < length old then ''VK_B'' else old)"
    by blast
  from e1 r2 have "e1 = ?b" by simp
  with v1 have v: "map_of (values ?b) 1 = Some ''VK_B''"
    by (simp add: values_set_value VkEnum_init_def)
  have m: "map_of (name_to_value ?b) ''VK_LONG_NAME'' = Some 1"
    by (simp add: update_conv')
  have "\<exists>c. map_of (values ?b) 1 = Some c \<and> map_of (name_to_value ?b) c = Some 1
       \<and> length c \<le> length ''VK_LONG_NAME''
       \<and> (length c = length ''VK_LONG_NAME''
            \<longrightarrow> ''VK_LONG_NAME'' \<notin> set (takeWhile (\<lambda>x. x \<noteq> c) (names_of ?b 1)))"
    by (rule t4[THEN conjunct2, THEN conjunct2, THEN conjunct2, THEN conjunct2,
          THEN conjunct2, THEN mp]) (intro conjI c2' m)
  from rec have nb: "map_of (name_to_value ?b) ''VK_B'' = Some 1" by (rule conjunct1)
  show ?thesis by (intro conjI r1 r2 r3 k2 p c2 v nb m)
qed

section \<open>Alias chains resolve in any order\<close>

lemma chain_shape_set_value:
  assumes "distinct cs" and "chain_shape cs v D x r a b t" and "r < length cs"
  shows "chain_shape cs v D (set_value x (cs ! r) v) (Suc r) a b t"
  using assms
  by (auto simp: chain_shape_def update_conv' nth_eq_iff_index_eq)

lemma chain_resolve:
  assumes "distinct cs"
  shows "chain_shape cs v D x r a (t - 1) t \<Longrightarrow> a \<le> r \<Longrightarrow> r < t \<Longrightarrow> t \<le> length cs \<Longrightarrow>
         t - r \<le> d \<Longrightarrow>
         \<exists>x'. add_value d x (cs ! r) (Some v) None None None False = Inr x'
               \<and> chain_shape cs v D x' t a r t"
proof (induction d arbitrary: x r)
  case 0
  then show ?case by simp
next
  case (Suc d)
  let ?x1 = "set_value x (cs ! r) v"
  from Suc.prems have rn: "r < length cs" by simp
  have s1: "chain_shape cs v D ?x1 (Suc r) a (t - 1) t"
    using assms Suc.prems(1) rn by (rule chain_shape_set_value)
  show ?case
  proof (cases "Suc r = t")
    case True
    with Suc.prems rn have "map_of (name_to_alias_list x) (cs ! r) = None"
      by (auto simp: chain_shape_def)
    then have "add_value (Suc d) x (cs ! r) (Some v) None None None False = Inr ?x1"
      by (simp add: add_value_Some)
    moreover from s1 True have "chain_shape cs v D ?x1 t a r t"
      by auto
    ultimately show ?thesis by blast
  next
    case False
    with Suc.prems have lt: "Suc r < t" by simp
    with Suc.prems rn have p: "map_of (name_to_alias_list x) (cs ! r) = Some [cs ! Suc r]"
      by (auto simp: chain_shape_def)
    from lt Suc.prems have "\<exists>x'. add_value d ?x1 (cs ! Suc r) (Some v) None None None False = Inr x'
               \<and> chain_shape cs v D x' t a (Suc r) t"
      by (intro Suc.IH s1) auto
    then obtain x2 where r2: "add_value d ?x1 (cs ! Suc r) (Some v) None None None False = Inr x2"
      and s2: "chain_shape cs v D x2 t a (Suc r) t"
      by blast
    from s2 rn Suc.prems(2) have p2: "map_of (name_to_alias_list x2) (cs ! r) = Some [cs ! Suc r]"
      by (auto simp: chain_shape_def)
    let ?x' = "x2\<lparr> name_to_alias_list := AList.delete (cs ! r) (name_to_alias_list x2) \<rparr>"
    have "add_value (Suc d) x (cs ! r) (Some v) None None None False = Inr ?x'"
      using p r2 p2 by (simp add: add_value_Some)
    moreover have "chain_shape cs v D ?x' t a r t"
      using s2 assms rn lt Suc.prems(4)
      by (auto simp: chain_shape_def delete_conv' nth_eq_iff_index_eq)
    ultimately show ?thesis by blast
  qed
qed

lemma chain_shape_extension [simp]:
  "chain_shape cs v D (x\<lparr> extension := ext \<rparr>) r a b t = chain_shape cs v D x r a b t"
  by (simp add: chain_shape_def)

lemma chain_shape_no_interval:
  "chain_shape cs v D x r a a t = chain_shape cs v D x r b b t"
proof -
  have *: "(a \<le> i \<and> i < a) = (b \<le> i \<and> i < b)" for i :: nat by auto
  show ?thesis unfolding chain_shape_def by (simp only: *)
qed

lemma add_value_from_xml_chain_elem:
  "add_value_from_xml d x (chain_elem cs v j) ext =
     (if j = 0 then add_value d (x\<lparr> extension := ext \<rparr>) (cs ! 0) (Some v) None None None False
      else add_value d (x\<lparr> extension := ext \<rparr>) (cs ! j) None None None (Some (cs ! (j - 1))) False)"
  by (simp add: add_value_from_xml_def chain_elem_def elem_value_def elem_alias_def)

lemma add_value_alias_resolved:
  "map_of (name_to_value y) b = Some v \<Longrightarrow>
   add_value (Suc d) y c None None None (Some b) False
     = add_value (Suc d) y c (Some v) None None None False"
  by (simp add: add_value_Suc add_value_Some)

lemma first_undeclared:
  assumes "D \<subseteq> {0..<n::nat}"
  obtains t where "t \<le> n" and "t \<notin> D" and "\<forall>i < t. i \<in> D"
proof -
  have n: "n \<notin> D"
  proof
    assume "n \<in> D"
    with assms have "n \<in> {0..<n}" by (rule subsetD)
    then show False by simp
  qed
  define t where "t = (LEAST i. i \<notin> D)"
  have "t \<notin> D" unfolding t_def using n by (rule LeastI)
  moreover have "t \<le> n" unfolding t_def using n by (rule Least_le)
  moreover have "\<forall>i < t. i \<in> D" unfolding t_def using not_less_Least by blast
  ultimately show ?thesis using that by blast
qed

lemma chain_declare:
  assumes "distinct cs" and "chain_inv cs v D r x" and "j < length cs" and "j \<notin> D"
    and "length cs \<le> d"
  shows "\<exists>x' r'. add_value_from_xml d x (chain_elem cs v j) ext = Inr x'
           \<and> chain_inv cs v (insert j D) r' x'"
proof -
  let ?y = "x\<lparr> extension := ext \<rparr>"
  let ?D = "insert j D"
  from assms(3,5) obtain d' where d: "d = Suc d'" by (cases d) auto
  from assms(2) have D: "D \<subseteq> {0..<length cs}" and rn: "r \<le> length cs" and rD: "r \<notin> D"
    and below: "\<forall>i < r. i \<in> D" and sh: "chain_shape cs v D ?y r r r r"
    by (simp_all add: chain_inv_def)
  from D assms(3) have D': "?D \<subseteq> {0..<length cs}" by auto
  from below assms(4) have jr: "r \<le> j" by (meson not_le)
  show ?thesis
  proof (cases "j = r")
    case True
    from D' obtain t where tn: "t \<le> length cs" and tD: "t \<notin> ?D" and bt: "\<forall>i < t. i \<in> ?D"
      by (rule first_undeclared)
    have rt: "r < t"
    proof (rule ccontr)
      assume "\<not> r < t"
      then have "t < r \<or> t = r" by auto
      with below tD True show False by auto
    qed
    have inD: "i \<in> D" if "r < i" and "i < t" for i
      using that bt True by auto
    have pre: "chain_shape cs v ?D ?y r r (t - 1) t"
      unfolding chain_shape_def
    proof (intro conjI allI impI)
      fix i assume "i < length cs"
      with sh show "map_of (name_to_value ?y) (cs ! i) = (if i < r then Some v else None)"
        by (simp add: chain_shape_def)
    next
      fix i assume i: "i < length cs"
      have "(r \<le> i \<and> i < t - 1) \<or> (t \<le> i \<and> Suc i \<in> ?D)
              \<longleftrightarrow> (r \<le> i \<and> i < r) \<or> (r \<le> i \<and> Suc i \<in> D)"
      proof (cases "i < t - 1")
        case True
        then have st: "Suc i < t" by simp
        have "Suc i \<in> D" if "r \<le> i"
          using that st by (intro inD) simp_all
        with True st show ?thesis by auto
      next
        case False
        show ?thesis
        proof (cases "Suc i = t")
          case True
          with tD rt show ?thesis by auto
        next
          case False
          with \<open>\<not> i < t - 1\<close> have "t \<le> i" by auto
          with rt \<open>j = r\<close> show ?thesis by auto
        qed
      qed
      with sh i show "map_of (name_to_alias_list ?y) (cs ! i) =
          (if (r \<le> i \<and> i < t - 1) \<or> (t \<le> i \<and> Suc i \<in> ?D) then Some [cs ! Suc i] else None)"
        by (simp add: chain_shape_def)
    qed
    from tn assms(5) have "t - r \<le> d" by simp
    with chain_resolve[OF assms(1) pre _ rt tn, of d]
    obtain x' where run: "add_value d ?y (cs ! r) (Some v) None None None False = Inr x'"
      and post: "chain_shape cs v ?D x' t r r t"
      by auto
    have call: "add_value_from_xml d x (chain_elem cs v j) ext = Inr x'"
    proof (cases "j = 0")
      case True
      with run \<open>j = r\<close> show ?thesis by (simp add: add_value_from_xml_chain_elem)
    next
      case False
      with \<open>j = r\<close> sh assms(3) have "map_of (name_to_value ?y) (cs ! (j - 1)) = Some v"
        by (simp add: chain_shape_def)
      with False run \<open>j = r\<close> show ?thesis
        by (simp add: add_value_from_xml_chain_elem d add_value_alias_resolved)
    qed
    from post have "chain_shape cs v ?D x' t t t t"
      by (simp only: chain_shape_no_interval[of cs v ?D x' t r t t])
    with D' tn tD bt have "chain_inv cs v ?D t x'"
      by (simp add: chain_inv_def)
    with call show ?thesis by blast
  next
    case False
    with jr have lt: "r < j" by simp
    then have j0: "j \<noteq> 0" by simp
    from lt assms(3) sh have none: "map_of (name_to_value ?y) (cs ! (j - 1)) = None"
      by (simp add: chain_shape_def)
    from lt assms(3,4) sh have nol: "map_of (name_to_alias_list ?y) (cs ! (j - 1)) = None"
      by (simp add: chain_shape_def)
    let ?x' = "?y\<lparr> name_to_alias_list :=
                  AList.update (cs ! (j - 1)) [cs ! j] (name_to_alias_list ?y) \<rparr>"
    have call: "add_value_from_xml d x (chain_elem cs v j) ext = Inr ?x'"
      using j0 none nol by (simp add: add_value_from_xml_chain_elem d add_value_Suc)
    have "chain_shape cs v ?D ?x' r r r r"
      unfolding chain_shape_def
    proof (intro conjI allI impI)
      fix i assume "i < length cs"
      with sh show "map_of (name_to_value ?x') (cs ! i) = (if i < r then Some v else None)"
        by (simp add: chain_shape_def)
    next
      fix i assume i: "i < length cs"
      have eq: "cs ! i = cs ! (j - 1) \<longleftrightarrow> i = j - 1"
        using assms(1,3) i by (simp add: nth_eq_iff_index_eq)
      show "map_of (name_to_alias_list ?x') (cs ! i) =
          (if (r \<le> i \<and> i < r) \<or> (r \<le> i \<and> Suc i \<in> ?D) then Some [cs ! Suc i] else None)"
      proof (cases "i = j - 1")
        case True
        with lt j0 show ?thesis by (simp add: update_conv')
      next
        case False
        with j0 have "Suc i \<noteq> j" by auto
        with False eq sh i show ?thesis
          by (simp add: update_conv' chain_shape_def)
      qed
    qed
    with D' rn rD below False have "chain_inv cs v ?D r ?x'"
      by (simp add: chain_inv_def)
    with call show ?thesis by blast
  qed
qed

lemma attr_name_chain_elem [simp]: "attr_name (chain_elem cs v i) = cs ! i"
  by (simp add: chain_elem_def elem_value_def elem_alias_def)

lemma chain_elem_inj:
  assumes "distinct cs" and "i < length cs" and "j < length cs"
    and "chain_elem cs v i = chain_elem cs v j"
  shows "i = j"
proof -
  from assms(4) have "attr_name (chain_elem cs v i) = attr_name (chain_elem cs v j)" by simp
  with assms(1-3) show ?thesis by (simp add: nth_eq_iff_index_eq)
qed

lemma chain_elems_eq:
  assumes "cs \<noteq> []"
  shows "chain_elems cs v = map (chain_elem cs v) [0..<length cs]"
proof (rule nth_equalityI)
  from assms show "length (chain_elems cs v) = length (map (chain_elem cs v) [0..<length cs])"
    by (cases cs) (simp_all add: chain_elems_def)
next
  fix i assume "i < length (chain_elems cs v)"
  with assms have i: "i < length cs" by (cases cs) (simp_all add: chain_elems_def)
  show "chain_elems cs v ! i = map (chain_elem cs v) [0..<length cs] ! i"
  proof (cases i)
    case 0
    with assms i show ?thesis by (simp add: chain_elems_def chain_elem_def hd_conv_nth)
  next
    case (Suc k)
    with i have "k < length (tl cs)" by simp
    with Suc i show ?thesis by (simp add: chain_elems_def chain_elem_def nth_tl)
  qed
qed

lemma chain_run:
  assumes "distinct cs" and "length cs \<le> d"
  shows "distinct (map fst ds) \<Longrightarrow>
         (\<forall>el \<in> set (map fst ds). \<exists>j < length cs. j \<notin> D \<and> el = chain_elem cs v j) \<Longrightarrow>
         chain_inv cs v D r x \<Longrightarrow>
         \<exists>x' r'. add_values_from_xml d x ds = Inr x'
           \<and> chain_inv cs v (D \<union> {j. j < length cs \<and> chain_elem cs v j \<in> set (map fst ds)}) r' x'"
proof (induction ds arbitrary: D r x)
  case Nil
  then show ?case by auto
next
  case (Cons p ds)
  obtain el ext where p: "p = (el, ext)" by (cases p)
  from Cons.prems(2) obtain j where j: "j < length cs" "j \<notin> D" "el = chain_elem cs v j"
    unfolding p by auto
  from chain_declare[OF assms(1) Cons.prems(3) j(1,2) assms(2), of ext]
  obtain x1 r1 where step: "add_value_from_xml d x el ext = Inr x1"
    and inv1: "chain_inv cs v (insert j D) r1 x1"
    unfolding j(3) by blast
  from Cons.prems(1) have fresh: "el \<notin> set (map fst ds)" and dist: "distinct (map fst ds)"
    by (simp_all add: p)
  have rest: "\<forall>el' \<in> set (map fst ds). \<exists>k < length cs. k \<notin> insert j D \<and> el' = chain_elem cs v k"
  proof
    fix el' assume el': "el' \<in> set (map fst ds)"
    with Cons.prems(2) obtain k where k: "k < length cs" "k \<notin> D" "el' = chain_elem cs v k"
      by auto
    from el' fresh have "el' \<noteq> el" by auto
    with k(3) j(3) have "k \<noteq> j" by auto
    with k show "\<exists>k < length cs. k \<notin> insert j D \<and> el' = chain_elem cs v k" by auto
  qed
  from Cons.IH[OF dist rest inv1] obtain x' r' where
    run: "add_values_from_xml d x1 ds = Inr x'"
    and inv: "chain_inv cs v
        (insert j D \<union> {k. k < length cs \<and> chain_elem cs v k \<in> set (map fst ds)}) r' x'"
    by blast
  have "{k. k < length cs \<and> chain_elem cs v k = el} = {j}"
    using j chain_elem_inj[OF assms(1)] by auto
  then have "insert j D \<union> {k. k < length cs \<and> chain_elem cs v k \<in> set (map fst ds)}
      = D \<union> {k. k < length cs \<and> chain_elem cs v k \<in> set (map fst (p # ds))}"
    unfolding p by auto
  with inv have "chain_inv cs v
      (D \<union> {k. k < length cs \<and> chain_elem cs v k \<in> set (map fst (p # ds))}) r' x'"
    by simp
  moreover from step run have "add_values_from_xml d x (p # ds) = Inr x'"
    by (simp add: p)
  ultimately show ?case by blast
qed

lemma chain_resolves:
  assumes "cs \<noteq> []" and "distinct cs"
    and "mset (map fst ds) = mset (chain_elems cs v)"
    and "\<forall>c \<in> set cs. map_of (name_to_value e) c = None \<and> map_of (name_to_alias_list e) c = None"
    and "length cs \<le> fuel"
  shows "\<exists>e'. add_values_from_xml fuel e ds = Inr e'
           \<and> (\<forall>c \<in> set cs. map_of (name_to_value e') c = Some v
                 \<and> map_of (name_to_alias_list e') c = None)"
proof -
  let ?n = "length cs"
  let ?f = "chain_elem cs v"
  have inj: "inj_on ?f {0..<?n}"
    using chain_elem_inj[OF assms(2)] by (auto simp: inj_on_def)
  have ce: "chain_elems cs v = map ?f [0..<?n]"
    using assms(1) by (rule chain_elems_eq)
  have "distinct (chain_elems cs v)"
    unfolding ce using inj by (simp add: distinct_map)
  with assms(3) have dist: "distinct (map fst ds)"
    by (metis mset_eq_imp_distinct_iff)
  from assms(3) have set_eq: "set (map fst ds) = ?f ` {0..<?n}"
    unfolding ce by (metis mset_eq_setD set_map set_upt)
  have all: "\<forall>el \<in> set (map fst ds). \<exists>j < ?n. j \<notin> {} \<and> el = ?f j"
    unfolding set_eq by auto
  have inv0: "chain_inv cs v {} 0 e"
    using assms(1,4) by (auto simp: chain_inv_def chain_shape_def)
  from chain_run[OF assms(2,5) dist all inv0] obtain e' r' where
    run: "add_values_from_xml fuel e ds = Inr e'"
    and inv: "chain_inv cs v ({} \<union> {j. j < ?n \<and> ?f j \<in> set (map fst ds)}) r' e'"
    by blast
  have "{} \<union> {j. j < ?n \<and> ?f j \<in> set (map fst ds)} = {0..<?n}"
    unfolding set_eq by auto
  with inv have inv': "chain_inv cs v {0..<?n} r' e'" by simp
  then have "r' = ?n" by (auto simp: chain_inv_def)
  with inv' have sh: "chain_shape cs v {0..<?n} e' ?n ?n ?n ?n"
    by (simp add: chain_inv_def)
  have "map_of (name_to_value e') c = Some v \<and> map_of (name_to_alias_list e') c = None"
    if "c \<in> set cs" for c
  proof -
    from that obtain i where "i < ?n" "c = cs ! i" by (auto simp: in_set_conv_nth)
    with sh show ?thesis by (simp add: chain_shape_def)
  qed
  with run show ?thesis by blast
qed

lemma add_aliases_registers:
  "add_aliases d e al v = Inr e' \<Longrightarrow> \<forall>a \<in> set al. map_of (name_to_value e') a = Some v"
proof (induction al arbitrary: e)
  case Nil
  then show ?case by simp
next
  case (Cons a as)
  from Cons.prems obtain e1 where
    e1: "add_value d e a (Some v) None None None False = Inr e1"
    and rest: "add_aliases d e1 as v = Inr e'"
    by (auto split: sum.splits)
  from e1 have "map_of (name_to_value e1) a = Some v" by (rule add_value_registers)
  with rest have "map_of (name_to_value e') a = Some v"
    by (rule add_aliases_invariant[where I = "\<lambda>x. map_of (name_to_value x) a = Some v"])
      (use add_value_keeps_value in blast)
  with Cons.IH[OF rest] show ?case by simp
qed

lemma add_value_flushes:
  assumes "add_value d e b (Some v) None None None False = Inr e2"
    and "map_of (name_to_alias_list e) b = Some l"
  shows "(\<forall>a \<in> set l. map_of (name_to_value e2) a = Some v)
         \<and> map_of (name_to_alias_list e2) b = None"
  using assms(1)
proof (cases rule: add_value_Some_cases)
  case (plain d')
  with assms(2) show ?thesis by simp
next
  case (flushed d' al x)
  with assms(2) have "al = l" by simp
  with flushed(3) have "\<forall>a \<in> set l. map_of (name_to_value x) a = Some v"
    by (blast dest: add_aliases_registers)
  with flushed(5) show ?thesis by (simp add: delete_conv')
qed

text \<open>
  C2, as the specification states it, fails for a chain that is longer than the recursion
  limit: \<open>add_value\<close> calls itself once per link when the terminal constant is declared
  after its aliases. With two frames, the chain \<open>C \<rightarrow> B \<rightarrow> A\<close> declared aliases first ends
  in \<open>RecursionError\<close>, where three frames resolve it.
\<close>

theorem alias_chain_recursion_limit_counterexample:
  "distinct [''A'', ''B'', ''C'']
   \<and> mset (map fst [(elem_alias ''C'' ''B'', None), (elem_alias ''B'' ''A'', None),
                     (elem_value ''A'' 7, None :: VkExtension option)])
       = mset (chain_elems [''A'', ''B'', ''C''] 7)
   \<and> add_values_from_xml 2 (VkEnum_init ''VkFoo'' 32)
        [(elem_alias ''C'' ''B'', None), (elem_alias ''B'' ''A'', None), (elem_value ''A'' 7, None)]
       = Inl RecursionError"
proof -
  have "mset (map fst [(elem_alias ''C'' ''B'', None), (elem_alias ''B'' ''A'', None),
                     (elem_value ''A'' 7, None :: VkExtension option)])
       = mset (chain_elems [''A'', ''B'', ''C''] 7)"
    by (simp add: chain_elems_def)
  moreover have "add_values_from_xml (Suc (Suc 0)) (VkEnum_init ''VkFoo'' 32)
        [(elem_alias ''C'' ''B'', None), (elem_alias ''B'' ''A'', None), (elem_value ''A'' 7, None)]
       = Inl RecursionError"
    by (simp add: add_value_from_xml_def elem_alias_def elem_value_def add_value_Suc
        add_value_Some VkEnum_init_def set_value_def)
  ultimately show ?thesis by (simp add: numeral_2_eq_2)
qed

text \<open>
  C2, amended. Let the names of a chain be distinct and new to the enum (no value, nobody
  waiting for them), the first declared with the number \<open>v\<close> and each other one as an
  alias of the one before it, and let the chain be no longer than the recursion limit.
  Whatever the order of the declarations, the loader returns, and then every name of the
  chain has the value \<open>v\<close> and no waiting list is left under a name of the chain. An
  alias of a name without a value is appended to the waiting list of that name, and a
  call that gives a name its value gives it to every name of its waiting list and removes
  the list.
\<close>

theorem alias_chain_resolves:
  "(cs \<noteq> [] \<and> distinct cs \<and> mset (map fst ds) = mset (chain_elems cs v)
      \<and> (\<forall>c \<in> set cs. map_of (name_to_value e) c = None
                        \<and> map_of (name_to_alias_list e) c = None)
      \<and> length cs \<le> fuel
    \<longrightarrow> (\<exists>e'. add_values_from_xml fuel e ds = Inr e'
           \<and> (\<forall>c \<in> set cs. map_of (name_to_value e') c = Some v
                 \<and> map_of (name_to_alias_list e') c = None)))
   \<and> (map_of (name_to_value e) b = None
       \<longrightarrow> add_value (Suc d) e nm None None None (Some b) err
           = Inr (e\<lparr> name_to_alias_list :=
                       AList.update b
                         ((case map_of (name_to_alias_list e) b of None \<Rightarrow> [] | Some l \<Rightarrow> l) @ [nm])
                         (name_to_alias_list e) \<rparr>))
   \<and> (add_value d e b (Some v) None None None False = Inr e2
        \<and> map_of (name_to_alias_list e) b = Some l
       \<longrightarrow> (\<forall>a \<in> set l. map_of (name_to_value e2) a = Some v)
           \<and> map_of (name_to_alias_list e2) b = None)"
proof -
  have A: "cs \<noteq> [] \<and> distinct cs \<and> mset (map fst ds) = mset (chain_elems cs v)
      \<and> (\<forall>c \<in> set cs. map_of (name_to_value e) c = None
                        \<and> map_of (name_to_alias_list e) c = None)
      \<and> length cs \<le> fuel
    \<longrightarrow> (\<exists>e'. add_values_from_xml fuel e ds = Inr e'
           \<and> (\<forall>c \<in> set cs. map_of (name_to_value e') c = Some v
                 \<and> map_of (name_to_alias_list e') c = None))"
  proof
    assume h: "cs \<noteq> [] \<and> distinct cs \<and> mset (map fst ds) = mset (chain_elems cs v)
      \<and> (\<forall>c \<in> set cs. map_of (name_to_value e) c = None
                        \<and> map_of (name_to_alias_list e) c = None)
      \<and> length cs \<le> fuel"
    from h have h1: "cs \<noteq> []" by (rule conjunct1)
    from h have h2: "distinct cs" by (elim conjE)
    from h have h3: "mset (map fst ds) = mset (chain_elems cs v)" by (elim conjE)
    from h have h4: "\<forall>c \<in> set cs. map_of (name_to_value e) c = None
                        \<and> map_of (name_to_alias_list e) c = None" by (elim conjE)
    from h have h5: "length cs \<le> fuel" by (elim conjE)
    from h1 h2 h3 h4 h5 show "\<exists>e'. add_values_from_xml fuel e ds = Inr e'
           \<and> (\<forall>c \<in> set cs. map_of (name_to_value e') c = Some v
                 \<and> map_of (name_to_alias_list e') c = None)"
      by (rule chain_resolves)
  qed
  have B: "map_of (name_to_value e) b = None
       \<longrightarrow> add_value (Suc d) e nm None None None (Some b) err
           = Inr (e\<lparr> name_to_alias_list :=
                       AList.update b
                         ((case map_of (name_to_alias_list e) b of None \<Rightarrow> [] | Some l \<Rightarrow> l) @ [nm])
                         (name_to_alias_list e) \<rparr>)"
    by (simp add: add_value_Suc)
  have C: "add_value d e b (Some v) None None None False = Inr e2
        \<and> map_of (name_to_alias_list e) b = Some l
       \<longrightarrow> (\<forall>a \<in> set l. map_of (name_to_value e2) a = Some v)
           \<and> map_of (name_to_alias_list e2) b = None"
    using add_value_flushes[of d e b v e2 l] by blast
  show ?thesis by (rule conjI[OF A conjI[OF B C]])
qed

theorem alias_chain_resolves_witness:
  "distinct [''A'', ''B'', ''C'']
   \<and> mset (map fst [(elem_alias ''C'' ''B'', None), (elem_value ''A'' 7, None),
                     (elem_alias ''B'' ''A'', None :: VkExtension option)])
       = mset (chain_elems [''A'', ''B'', ''C''] 7)
   \<and> (\<exists>e'. add_values_from_xml 3 (VkEnum_init ''VkFoo'' 32)
              [(elem_alias ''C'' ''B'', None), (elem_value ''A'' 7, None),
               (elem_alias ''B'' ''A'', None)] = Inr e'
           \<and> (\<forall>c \<in> set [''A'', ''B'', ''C''].
                 map_of (name_to_value e') c = Some 7 \<and> map_of (name_to_alias_list e') c = None))
   \<and> add_value (Suc 0) (VkEnum_init ''VkFoo'' 32) ''B'' None None None (Some ''A'') False
       = Inr (VkEnum_init ''VkFoo'' 32 \<lparr> name_to_alias_list := [(''A'', [''B''])] \<rparr>)
   \<and> add_value (Suc (Suc 0)) (VkEnum_init ''VkFoo'' 32 \<lparr> name_to_alias_list := [(''A'', [''B''])] \<rparr>)
        ''A'' (Some 7) None None None False
       = Inr (VkEnum_init ''VkFoo'' 32
               \<lparr> values := [(7, ''A'')], name_to_value := [(''A'', 7), (''B'', 7)] \<rparr>)
   \<and> map_of (name_to_value (VkEnum_init ''VkFoo'' 32
               \<lparr> values := [(7, ''A'')], name_to_value := [(''A'', 7), (''B'', 7)] \<rparr>)) ''B''
       = Some 7"
proof -
  let ?init = "VkEnum_init ''VkFoo'' 32"
  let ?cs = "[''A'', ''B'', ''C'']"
  let ?ds = "[(elem_alias ''C'' ''B'', None), (elem_value ''A'' 7, None),
              (elem_alias ''B'' ''A'', None :: VkExtension option)]"
  let ?p = "?init \<lparr> name_to_alias_list := [(''A'', [''B''])] \<rparr>"
  let ?q = "?init \<lparr> values := [(7, ''A'')], name_to_value := [(''A'', 7), (''B'', 7)] \<rparr>"
  have h1: "?cs \<noteq> []" and h2: "distinct ?cs" by simp_all
  have h3: "mset (map fst ?ds) = mset (chain_elems ?cs 7)"
    by (simp add: chain_elems_def)
  have h4: "\<forall>c \<in> set ?cs. map_of (name_to_value ?init) c = None
                        \<and> map_of (name_to_alias_list ?init) c = None"
    by (simp add: VkEnum_init_def)
  have h5: "length ?cs \<le> 3" by simp
  note t = alias_chain_resolves [where cs = ?cs and ds = ?ds and v = 7 and e = ?init
      and fuel = 3 and b = "''A''" and nm = "''B''" and d = 0 and err = False]
  note u = alias_chain_resolves [where e = ?p and b = "''A''" and v = 7 and d = "Suc (Suc 0)"
      and ?e2.0 = ?q and l = "[''B'']"]
  from t h1 h2 h3 h4 h5 have chain: "\<exists>e'. add_values_from_xml 3 ?init ?ds = Inr e'
           \<and> (\<forall>c \<in> set ?cs. map_of (name_to_value e') c = Some 7
                 \<and> map_of (name_to_alias_list e') c = None)"
    by blast
  have "map_of (name_to_value ?init) ''A'' = None" by (simp add: VkEnum_init_def)
  with t have "add_value (Suc 0) ?init ''B'' None None None (Some ''A'') False
           = Inr (?init\<lparr> name_to_alias_list :=
                       AList.update ''A''
                         ((case map_of (name_to_alias_list ?init) ''A'' of None \<Rightarrow> [] | Some l \<Rightarrow> l) @ [''B''])
                         (name_to_alias_list ?init) \<rparr>)"
    by blast
  then have park: "add_value (Suc 0) ?init ''B'' None None None (Some ''A'') False = Inr ?p"
    by (simp add: VkEnum_init_def)
  have run: "add_value (Suc (Suc 0)) ?p ''A'' (Some 7) None None None False = Inr ?q"
    by (simp add: add_value_Some VkEnum_init_def set_value_def)
  have "map_of (name_to_alias_list ?p) ''A'' = Some [''B'']" by simp
  with u run have "\<forall>a \<in> set [''B'']. map_of (name_to_value ?q) a = Some 7" by blast
  then have fl: "map_of (name_to_value ?q) ''B'' = Some 7" by simp
  from h2 h3 chain park run fl show ?thesis by blast
qed

section \<open>The sentinel name\<close>

section \<open>The sentinel name\<close>

lemma split_not_Nil [simp]: "split c s \<noteq> []"
  by (induction s) (auto split: list.splits)




lemma last_split_no_sep: "c \<notin> set (last (split c s))"
proof (induction s)
  case Nil
  then show ?case by simp
next
  case (Cons x s)
  obtain w ws where w: "split c s = w # ws" by (cases "split c s") auto
  with Cons show ?case by (cases ws) auto
qed




















end
